theory Spec2Isabelle
  imports Main "HOL-Library.AList"
begin

section \<open>The operation log (src/server/drawing-state.js)\<close>

text \<open>
  \<^verbatim>\<open>Array.prototype.slice(0, end)\<close> for an integral \<open>end\<close>: a negative end counts from
  the end of the array, everything is clamped to the array.
\<close>

definition js_slice0 :: "'a list \<Rightarrow> int \<Rightarrow> 'a list" where
  "js_slice0 xs e =
     (let n = int (length xs);
          final = (if e < 0 then max (n + e) 0 else min e n)
      in take (nat final) xs)"

text \<open>
  The class \<^verbatim>\<open>DrawingState\<close>: the array \<^verbatim>\<open>operations\<close> and the cursor
  \<^verbatim>\<open>currentIndex\<close>. The class never looks inside an operation, so the element type
  is a parameter.
\<close>

record 'a DrawingState =
  operations :: "'a list"
  currentIndex :: int

text \<open>The constructor: an empty array and the cursor at \<open>- 1\<close>.\<close>

abbreviation new_DrawingState :: "'a DrawingState" where
  "new_DrawingState \<equiv> \<lparr>operations = [], currentIndex = - 1\<rparr>"

definition getVisibleOperations :: "'a DrawingState \<Rightarrow> 'a list" where
  "getVisibleOperations s = js_slice0 (operations s) (currentIndex s + 1)"

text \<open>\<^verbatim>\<open>addOperation\<close> returns the new index and the updated log.\<close>

definition addOperation :: "'a DrawingState \<Rightarrow> 'a \<Rightarrow> int \<times> 'a DrawingState" where
  "addOperation s operation =
     (let ops1 = js_slice0 (operations s) (currentIndex s + 1);
          ops2 = ops1 @ [operation];
          idx = currentIndex s + 1
      in (idx, \<lparr>operations = ops2, currentIndex = idx\<rparr>))"

text \<open>
  The object returned by \<^verbatim>\<open>undo\<close> and \<^verbatim>\<open>redo\<close>:
  \<^verbatim>\<open>{success: true, currentIndex, operations}\<close> or \<^verbatim>\<open>{success: false}\<close>.
\<close>

datatype 'a history_result = Success int "'a list" | Failure

definition undo :: "'a DrawingState \<Rightarrow> 'a history_result \<times> 'a DrawingState" where
  "undo s =
     (if currentIndex s \<ge> 0 then
        (let s' = s\<lparr>currentIndex := currentIndex s - 1\<rparr>
         in (Success (currentIndex s') (getVisibleOperations s'), s'))
      else (Failure, s))"

definition redo :: "'a DrawingState \<Rightarrow> 'a history_result \<times> 'a DrawingState" where
  "redo s =
     (if currentIndex s < int (length (operations s)) - 1 then
        (let s' = s\<lparr>currentIndex := currentIndex s + 1\<rparr>
         in (Success (currentIndex s') (getVisibleOperations s'), s'))
      else (Failure, s))"

definition getAllOperations :: "'a DrawingState \<Rightarrow> 'a list" where
  "getAllOperations s = operations s"

definition clear :: "'a DrawingState \<Rightarrow> 'a DrawingState" where
  "clear s = \<lparr>operations = [], currentIndex = - 1\<rparr>"

text \<open>The bound on the cursor that the specification states for the log.\<close>

definition log_inv :: "'a DrawingState \<Rightarrow> bool" where
  "log_inv s \<longleftrightarrow> - 1 \<le> currentIndex s \<and> currentIndex s \<le> int (length (operations s)) - 1"

text \<open>A run of commits from the empty log, and runs of undo and redo calls that all succeed.\<close>

definition commits :: "'a list \<Rightarrow> 'a DrawingState" where
  "commits ops = foldl (\<lambda>s operation. snd (addOperation s operation)) new_DrawingState ops"

fun undo_times :: "nat \<Rightarrow> 'a DrawingState \<Rightarrow> 'a DrawingState option" where
  "undo_times 0 s = Some s"
| "undo_times (Suc m) s =
     (case undo s of
        (Success i vis, s') \<Rightarrow> undo_times m s'
      | (Failure, s') \<Rightarrow> None)"

fun redo_times :: "nat \<Rightarrow> 'a DrawingState \<Rightarrow> 'a DrawingState option" where
  "redo_times 0 s = Some s"
| "redo_times (Suc m) s =
     (case redo s of
        (Success i vis, s') \<Rightarrow> redo_times m s'
      | (Failure, s') \<Rightarrow> None)"

section \<open>Rooms and participants (src/server/rooms.js)\<close>

text \<open>
  A connection handle of the \<^verbatim>\<open>ws\<close> library is a reference; two participant
  entries may hold the same one. The handles are numbered, and the sockets behind them
  live in a store. The library itself is not part of the repository, so a socket is what
  the code reads and calls: \<^verbatim>\<open>readyState\<close> (1 is OPEN, 3 is CLOSED), whether a call
  of \<^verbatim>\<open>send\<close> raises (a parameter of the environment), and the messages handed to
  \<^verbatim>\<open>send\<close> by calls that returned.
\<close>

type_synonym ws = nat

datatype draw_type = DrawStart | DrawMove | DrawEnd

text \<open>
  The operation object built in the draw case of src/server/server.js. Numbers of the
  messages are carried unchanged and never computed with; they are integers here.
\<close>

record operation =
  op_type :: draw_type
  op_userId :: "nat option"
  op_tool :: string
  op_color :: string
  op_lineWidth :: int
  op_x :: int
  op_y :: int
  op_timestamp :: nat
  operationId :: "int option"

text \<open>An entry of \<^verbatim>\<open>getUserList\<close>: id, username, color.\<close>

type_synonym user_info = "nat \<times> string \<times> string"

datatype server_msg =
    Joined nat string string "operation list" "user_info list"
  | UserJoined user_info "user_info list"
  | Draw operation
  | CursorUpdate "nat option" int int
  | UndoMsg int "operation list"
  | RedoMsg int "operation list"
  | ClearMsg
  | UserLeft nat "user_info list"
  | ErrorMsg string

record sock =
  readyState :: nat
  sendThrows :: bool
  sent :: "server_msg list"

type_synonym world = "ws \<Rightarrow> sock"

datatype completion = Normal | Raised

text \<open>
  \<^verbatim>\<open>ws.send(JSON.stringify(message))\<close>: it raises and nothing is handed over, or it
  returns and the message is recorded for that socket.
\<close>

definition ws_send :: "world \<Rightarrow> ws \<Rightarrow> server_msg \<Rightarrow> completion \<times> world" where
  "ws_send W c m =
     (if sendThrows (W c) then (Raised, W)
      else (Normal, W(c := (W c)\<lparr>sent := sent (W c) @ [m]\<rparr>)))"

record user =
  user_id :: nat
  username :: string
  user_color :: string
  user_ws :: ws
  cursor :: "(int \<times> int) option"

text \<open>
  \<^verbatim>\<open>room.users\<close> is a JavaScript \<^verbatim>\<open>Map\<close>, iterated in insertion order: an
  association list, with \<^const>\<open>AList.update\<close> for \<^verbatim>\<open>set\<close> (an existing key keeps
  its place, a new one goes last) and \<^const>\<open>AList.delete\<close> for \<^verbatim>\<open>delete\<close>.
  \<^verbatim>\<open>this.rooms\<close> is never iterated: a map.
\<close>

record room =
  room_id :: string
  users :: "(nat \<times> user) list"
  drawingState :: "operation DrawingState"
  nextUserId :: nat

record RoomManager =
  rooms :: "string \<Rightarrow> room option"
  colorIndex :: nat

definition userColors :: "string list" where
  "userColors = [''#FF6B6B'', ''#4ECDC4'', ''#45B7D1'', ''#FFA07A'',
                 ''#98D8C8'', ''#F7DC6F'', ''#BB8FCE'', ''#85C1E2'']"

definition new_RoomManager :: RoomManager where
  "new_RoomManager = \<lparr>rooms = Map.empty, colorIndex = 0\<rparr>"

text \<open>The decimal numeral of the template literal \<^verbatim>\<open>`User ${userId}`\<close>.\<close>

fun show_nat :: "nat \<Rightarrow> string" where
  "show_nat n =
     (if n < 10 then [''0123456789'' ! n]
      else show_nat (n div 10) @ [''0123456789'' ! (n mod 10)])"

definition getOrCreateRoom :: "RoomManager \<Rightarrow> string \<Rightarrow> room \<times> RoomManager" where
  "getOrCreateRoom m roomId =
     (case rooms m roomId of
        Some r \<Rightarrow> (r, m)
      | None \<Rightarrow>
          (let r = \<lparr>room_id = roomId, users = [], drawingState = new_DrawingState,
                    nextUserId = 1\<rparr>
           in (r, m\<lparr>rooms := (rooms m)(roomId \<mapsto> r)\<rparr>)))"

text \<open>
  \<^verbatim>\<open>addUser(roomId, ws, username)\<close>; the username of a message may be absent
  (\<open>None\<close>), and an absent or empty one is replaced by the default.
\<close>

definition addUser ::
  "RoomManager \<Rightarrow> string \<Rightarrow> ws \<Rightarrow> string option \<Rightarrow> user \<times> room \<times> RoomManager" where
  "addUser m roomId c name =
     (let (r, m1) = getOrCreateRoom m roomId;
          userId = nextUserId r;
          r1 = r\<lparr>nextUserId := userId + 1\<rparr>;
          color = userColors ! (colorIndex m1 mod length userColors);
          m2 = m1\<lparr>colorIndex := colorIndex m1 + 1\<rparr>;
          u = \<lparr>user_id = userId,
               username = (case name of
                             None \<Rightarrow> ''User '' @ show_nat userId
                           | Some n \<Rightarrow> if n = [] then ''User '' @ show_nat userId else n),
               user_color = color, user_ws = c, cursor = None\<rparr>;
          r2 = r1\<lparr>users := AList.update userId u (users r1)\<rparr>
      in (u, r2, m2\<lparr>rooms := (rooms m2)(roomId \<mapsto> r2)\<rparr>))"

definition removeUser :: "RoomManager \<Rightarrow> string \<Rightarrow> nat \<Rightarrow> room option \<times> RoomManager" where
  "removeUser m roomId userId =
     (case rooms m roomId of
        None \<Rightarrow> (None, m)
      | Some r \<Rightarrow>
          (let r1 = r\<lparr>users := AList.delete userId (users r)\<rparr>
           in if length (users r1) = 0
              then (None, m\<lparr>rooms := (rooms m)(roomId := None)\<rparr>)
              else (Some r1, m\<lparr>rooms := (rooms m)(roomId \<mapsto> r1)\<rparr>)))"

text \<open>
  The callers pass the connection's \<^verbatim>\<open>currentRoomId\<close>, which is \<^verbatim>\<open>null\<close> before
  the first join: \<^verbatim>\<open>this.rooms.get(null)\<close> finds nothing.
\<close>

definition getRoom :: "RoomManager \<Rightarrow> string option \<Rightarrow> room option" where
  "getRoom m roomId = (case roomId of None \<Rightarrow> None | Some k \<Rightarrow> rooms m k)"

definition updateUserCursor ::
  "RoomManager \<Rightarrow> string option \<Rightarrow> nat option \<Rightarrow> int \<times> int \<Rightarrow> bool \<times> RoomManager" where
  "updateUserCursor m roomId userId cur =
     (case roomId of
        None \<Rightarrow> (False, m)
      | Some k \<Rightarrow>
          (case rooms m k of
             None \<Rightarrow> (False, m)
           | Some r \<Rightarrow>
               (case userId of
                  None \<Rightarrow> (False, m)
                | Some uid \<Rightarrow>
                    (case map_of (users r) uid of
                       None \<Rightarrow> (False, m)
                     | Some u \<Rightarrow>
                         (True,
                          m\<lparr>rooms := (rooms m)(k \<mapsto>
                               r\<lparr>users := AList.update uid (u\<lparr>cursor := Some cur\<rparr>) (users r)\<rparr>)\<rparr>)))))"

definition getUserList :: "room \<Rightarrow> user_info list" where
  "getUserList r = map (\<lambda>(k, u). (user_id u, username u, user_color u)) (users r)"

text \<open>
  The body of \<^verbatim>\<open>room.users.forEach\<close> in \<^verbatim>\<open>broadcastToRoom\<close>. There is no
  \<^verbatim>\<open>try\<close> around \<^verbatim>\<open>send\<close>: a call that raises ends the iteration.
\<close>

fun broadcast_loop ::
  "(nat \<times> user) list \<Rightarrow> server_msg \<Rightarrow> nat option \<Rightarrow> world \<Rightarrow> completion \<times> world" where
  "broadcast_loop [] msg excludeUserId W = (Normal, W)"
| "broadcast_loop ((userId, u) # us) msg excludeUserId W =
     (if Some userId \<noteq> excludeUserId \<and> readyState (W (user_ws u)) = 1 then
        (case ws_send W (user_ws u) msg of
           (Normal, W') \<Rightarrow> broadcast_loop us msg excludeUserId W'
         | (Raised, W') \<Rightarrow> (Raised, W'))
      else broadcast_loop us msg excludeUserId W)"

definition broadcastToRoom ::
  "RoomManager \<Rightarrow> string option \<Rightarrow> server_msg \<Rightarrow> nat option \<Rightarrow> world \<Rightarrow> completion \<times> world" where
  "broadcastToRoom m roomId msg excludeUserId W =
     (case getRoom m roomId of
        None \<Rightarrow> (Normal, W)
      | Some r \<Rightarrow> broadcast_loop (users r) msg excludeUserId W)"

section \<open>The connection handler (src/server/server.js)\<close>

text \<open>
  The messages a connection can deliver to \<^verbatim>\<open>ws.on('message')\<close>: the cases of the
  \<^verbatim>\<open>switch\<close>, a parsed message of any other type, and data on which
  \<^verbatim>\<open>JSON.parse\<close> or the read of \<^verbatim>\<open>message.type\<close> raises. The fields
  \<^verbatim>\<open>roomId\<close> and \<^verbatim>\<open>username\<close> of a join may be absent.
\<close>

datatype client_msg =
    Join "string option" "string option"
  | Drawing draw_type string string int int int
  | CursorMove int int
  | UndoReq
  | RedoReq
  | ClearReq
  | OtherType
  | Unparsable

text \<open>The two variables each connection closure holds.\<close>

record conn =
  currentUserId :: "nat option"
  currentRoomId :: "string option"

record server =
  roomManager :: RoomManager
  conns :: "ws \<Rightarrow> conn"
  socks :: world

definition new_server :: "world \<Rightarrow> server" where
  "new_server W =
     \<lparr>roomManager = new_RoomManager,
      conns = (\<lambda>c. \<lparr>currentUserId = None, currentRoomId = None\<rparr>),
      socks = W\<rparr>"

definition and_then ::
  "completion \<times> world \<Rightarrow> (world \<Rightarrow> completion \<times> world) \<Rightarrow> completion \<times> world" where
  "and_then r f = (case r of (Normal, W) \<Rightarrow> f W | (Raised, W) \<Rightarrow> (Raised, W))"

text \<open>
  The end of the \<^verbatim>\<open>try\<close> block and its \<^verbatim>\<open>catch\<close>: whatever the block changed before
  it raised stays changed, and the handler sends an error message to its own connection.
  When that send raises too, the exception leaves the handler (\<open>None\<close>).
\<close>

definition try_catch :: "server \<Rightarrow> ws \<Rightarrow> completion \<times> world \<Rightarrow> server option" where
  "try_catch s c r =
     (case r of
        (Normal, W) \<Rightarrow> Some (s\<lparr>socks := W\<rparr>)
      | (Raised, W) \<Rightarrow>
          (case ws_send W c (ErrorMsg ''Failed to process message'') of
             (Normal, W') \<Rightarrow> Some (s\<lparr>socks := W'\<rparr>)
           | (Raised, W') \<Rightarrow> None))"

text \<open>A room object is shared with \<^verbatim>\<open>this.rooms\<close>: a change of it is a change there.\<close>

definition put_room :: "RoomManager \<Rightarrow> string option \<Rightarrow> room \<Rightarrow> RoomManager" where
  "put_room m roomId r =
     (case roomId of None \<Rightarrow> m | Some k \<Rightarrow> m\<lparr>rooms := (rooms m)(k \<mapsto> r)\<rparr>)"

text \<open>
  \<^verbatim>\<open>message.roomId || 'default'\<close>: an absent or empty room key is the default one.
\<close>

definition room_key :: "string option \<Rightarrow> string" where
  "room_key rid = (case rid of None \<Rightarrow> ''default'' | Some k \<Rightarrow> if k = [] then ''default'' else k)"

text \<open>
  The handler of \<^verbatim>\<open>ws.on('message')\<close> of connection \<open>c\<close>; \<open>now\<close> is the value of
  \<^verbatim>\<open>Date.now()\<close>. In the draw-end case the operation object is pushed into the log and
  then given its \<^verbatim>\<open>operationId\<close>: the log's last element is that same object.
\<close>

definition on_message :: "server \<Rightarrow> ws \<Rightarrow> client_msg \<Rightarrow> nat \<Rightarrow> server option" where
  "on_message s c message now =
     (let m = roomManager s; cn = conns s c; W = socks s in
      case message of
        Unparsable \<Rightarrow> try_catch s c (Raised, W)
      | OtherType \<Rightarrow> try_catch s c (Normal, W)
      | Join rid name \<Rightarrow>
          (let roomId = room_key rid;
               (u, r, m') = addUser m roomId c name;
               cn' = \<lparr>currentUserId = Some (user_id u), currentRoomId = Some roomId\<rparr>;
               s' = s\<lparr>roomManager := m', conns := (conns s)(c := cn')\<rparr>
           in try_catch s' c
                (and_then
                   (ws_send W c
                      (Joined (user_id u) (user_color u) (username u)
                         (getVisibleOperations (drawingState r)) (getUserList r)))
                   (broadcastToRoom m' (Some roomId)
                      (UserJoined (user_id u, username u, user_color u) (getUserList r))
                      (Some (user_id u)))))
      | Drawing ty tool col lw px py \<Rightarrow>
          (case getRoom m (currentRoomId cn) of
             None \<Rightarrow> try_catch s c (Normal, W)
           | Some r \<Rightarrow>
               (let operation =
                      \<lparr>op_type = ty, op_userId = currentUserId cn, op_tool = tool, op_color = col,
                       op_lineWidth = lw, op_x = px, op_y = py, op_timestamp = now,
                       operationId = None\<rparr>
                in if ty = DrawEnd then
                     (let (opIndex, d) = addOperation (drawingState r) operation;
                          operation' = operation\<lparr>operationId := Some opIndex\<rparr>;
                          d' = d\<lparr>operations :=
                                  (operations d)[length (operations d) - 1 := operation']\<rparr>;
                          m' = put_room m (currentRoomId cn) (r\<lparr>drawingState := d'\<rparr>)
                      in try_catch (s\<lparr>roomManager := m'\<rparr>) c
                           (broadcastToRoom m' (currentRoomId cn) (Draw operation')
                              (currentUserId cn) W))
                   else
                     try_catch s c
                       (broadcastToRoom m (currentRoomId cn) (Draw operation)
                          (currentUserId cn) W)))
      | CursorMove px py \<Rightarrow>
          (let (ok, m') = updateUserCursor m (currentRoomId cn) (currentUserId cn) (px, py)
           in try_catch (s\<lparr>roomManager := m'\<rparr>) c
                (broadcastToRoom m' (currentRoomId cn) (CursorUpdate (currentUserId cn) px py)
                   (currentUserId cn) W))
      | UndoReq \<Rightarrow>
          (case getRoom m (currentRoomId cn) of
             None \<Rightarrow> try_catch s c (Normal, W)
           | Some r \<Rightarrow>
               (let (result, d) = undo (drawingState r);
                    m' = put_room m (currentRoomId cn) (r\<lparr>drawingState := d\<rparr>);
                    s' = s\<lparr>roomManager := m'\<rparr>
                in case result of
                     Success idx ops \<Rightarrow>
                       try_catch s' c
                         (and_then
                            (broadcastToRoom m' (currentRoomId cn) (UndoMsg idx ops) None W)
                            (\<lambda>W'. ws_send W' c (UndoMsg idx ops)))
                   | Failure \<Rightarrow> try_catch s' c (Normal, W)))
      | RedoReq \<Rightarrow>
          (case getRoom m (currentRoomId cn) of
             None \<Rightarrow> try_catch s c (Normal, W)
           | Some r \<Rightarrow>
               (let (result, d) = redo (drawingState r);
                    m' = put_room m (currentRoomId cn) (r\<lparr>drawingState := d\<rparr>);
                    s' = s\<lparr>roomManager := m'\<rparr>
                in case result of
                     Success idx ops \<Rightarrow>
                       try_catch s' c
                         (and_then
                            (broadcastToRoom m' (currentRoomId cn) (RedoMsg idx ops) None W)
                            (\<lambda>W'. ws_send W' c (RedoMsg idx ops)))
                   | Failure \<Rightarrow> try_catch s' c (Normal, W)))
      | ClearReq \<Rightarrow>
          (case getRoom m (currentRoomId cn) of
             None \<Rightarrow> try_catch s c (Normal, W)
           | Some r \<Rightarrow>
               (let m' = put_room m (currentRoomId cn)
                           (r\<lparr>drawingState := clear (drawingState r)\<rparr>)
                in try_catch (s\<lparr>roomManager := m'\<rparr>) c
                     (and_then
                        (broadcastToRoom m' (currentRoomId cn) ClearMsg None W)
                        (\<lambda>W'. ws_send W' c ClearMsg)))))"

text \<open>
  The handler of \<^verbatim>\<open>ws.on('close')\<close>. The test \<^verbatim>\<open>currentRoomId && currentUserId\<close> is
  JavaScript truthiness: neither \<^verbatim>\<open>null\<close>, nor the empty string, nor zero. Nothing
  catches an exception of the broadcast here.
\<close>

definition on_close :: "server \<Rightarrow> ws \<Rightarrow> server option" where
  "on_close s c =
     (let m = roomManager s; cn = conns s c; W = socks s in
      case (currentRoomId cn, currentUserId cn) of
        (Some roomId, Some userId) \<Rightarrow>
          (if roomId \<noteq> [] \<and> userId \<noteq> 0 then
             (let (ro, m') = removeUser m roomId userId;
                  s' = s\<lparr>roomManager := m'\<rparr>
              in case ro of
                   None \<Rightarrow> Some s'
                 | Some r \<Rightarrow>
                     (case broadcastToRoom m' (Some roomId) (UserLeft userId (getUserList r))
                             None W of
                        (Normal, W') \<Rightarrow> Some (s'\<lparr>socks := W'\<rparr>)
                      | (Raised, W') \<Rightarrow> None))
           else Some s)
      | _ \<Rightarrow> Some s)"

text \<open>
  What happens to the server, one event at a time. The \<^verbatim>\<open>ws\<close> library sets a socket's
  \<^verbatim>\<open>readyState\<close> to CLOSED (3) before it emits \<^verbatim>\<open>close\<close>, and emits nothing for
  that socket afterwards. The environment may also change the state of a socket that is
  not closed. An exception that leaves a handler ends the run (\<open>None\<close>).
\<close>

datatype event =
    Message ws client_msg nat
  | Close ws
  | SockChange ws nat bool

definition step :: "server \<Rightarrow> event \<Rightarrow> server option" where
  "step s ev =
     (case ev of
        Message c message now \<Rightarrow>
          (if readyState (socks s c) = 3 then Some s else on_message s c message now)
      | Close c \<Rightarrow>
          (if readyState (socks s c) = 3 then Some s
           else on_close (s\<lparr>socks := (socks s)(c := (socks s c)\<lparr>readyState := 3\<rparr>)\<rparr>) c)
      | SockChange c rs thr \<Rightarrow>
          (if readyState (socks s c) = 3 \<or> rs = 3 then Some s
           else Some (s\<lparr>socks := (socks s)(c := (socks s c)\<lparr>readyState := rs,
                                                               sendThrows := thr\<rparr>)\<rparr>)))"

fun run :: "server \<Rightarrow> event list \<Rightarrow> server option" where
  "run s [] = Some s"
| "run s (ev # evs) = (case step s ev of None \<Rightarrow> None | Some s' \<Rightarrow> run s' evs)"

section \<open>Replay on the client (CanvasDrawing.redrawFromOperations)\<close>

text \<open>
  The client rebuilds strokes from the operations list it is sent: a path is opened by a
  draw-start entry, extended by draw-move entries of the same key and drawn at the
  draw-end entry. The key is the template literal of user id and timestamp, here the pair.
  The result is the list of paths handed to \<^verbatim>\<open>drawPath\<close> that it strokes.
\<close>

record path =
  points :: "(int \<times> int) list"
  path_tool :: string
  path_color :: string
  path_lineWidth :: int

type_synonym path_key = "nat option \<times> nat"

definition drawPath :: "path \<Rightarrow> path list \<Rightarrow> path list" where
  "drawPath p drawn = (if length (points p) = 0 then drawn else drawn @ [p])"

fun redraw_loop ::
  "operation list \<Rightarrow> (path_key \<times> path) list \<Rightarrow> path list \<Rightarrow> (path_key \<times> path) list \<times> path list"
  where
  "redraw_loop [] paths drawn = (paths, drawn)"
| "redraw_loop (operation # ops) paths drawn =
     (let key = (op_userId operation, op_timestamp operation) in
      case op_type operation of
        DrawStart \<Rightarrow>
          redraw_loop ops
            (AList.update key
               \<lparr>points = [(op_x operation, op_y operation)], path_tool = op_tool operation,
                path_color = op_color operation, path_lineWidth = op_lineWidth operation\<rparr>
               paths)
            drawn
      | DrawMove \<Rightarrow>
          (case map_of paths key of
             None \<Rightarrow> redraw_loop ops paths drawn
           | Some p \<Rightarrow>
               redraw_loop ops
                 (AList.update key (p\<lparr>points := points p @ [(op_x operation, op_y operation)]\<rparr>)
                    paths)
                 drawn)
      | DrawEnd \<Rightarrow>
          (case map_of paths key of
             None \<Rightarrow> redraw_loop ops paths drawn
           | Some p \<Rightarrow>
               (let p' = p\<lparr>points := points p @ [(op_x operation, op_y operation)]\<rparr>
                in redraw_loop ops (AList.delete key paths) (drawPath p' drawn))))"

definition redrawFromOperations :: "operation list \<Rightarrow> path list" where
  "redrawFromOperations ops =
     (let (paths, drawn) = redraw_loop ops [] []
      in foldl (\<lambda>acc p. if length (points p) > 0 then drawPath p acc else acc) drawn
           (map snd paths))"

section \<open>Who a broadcast reaches\<close>

text \<open>
  The connections that \<^verbatim>\<open>broadcastToRoom\<close> calls \<^verbatim>\<open>send\<close> on, in the order of the
  iteration, one for every participant entry that is not the excluded one and whose socket
  is open; and the store after each of a list of connections was handed \<open>msg\<close> once per
  occurrence.
\<close>

definition recipients :: "(nat \<times> user) list \<Rightarrow> nat option \<Rightarrow> world \<Rightarrow> ws list" where
  "recipients us excludeUserId W =
     map (\<lambda>(userId, u). user_ws u)
       (filter (\<lambda>(userId, u). Some userId \<noteq> excludeUserId \<and> readyState (W (user_ws u)) = 1) us)"

definition deliver :: "ws list \<Rightarrow> server_msg \<Rightarrow> world \<Rightarrow> world" where
  "deliver cs msg W = (\<lambda>c. (W c)\<lparr>sent := sent (W c) @ replicate (count_list cs c) msg\<rparr>)"

section \<open>Participant entries\<close>

text \<open>
  What a room of the registry holds under a participant id: the user object
  (\<^verbatim>\<open>rooms.get(roomId).users.get(userId)\<close>), whether that entry's connection handle is
  \<open>c\<close>, and the ids the room holds.
\<close>

definition find_user :: "server \<Rightarrow> string \<Rightarrow> nat \<Rightarrow> user option" where
  "find_user s roomId userId =
     (case rooms (roomManager s) roomId of None \<Rightarrow> None | Some r \<Rightarrow> map_of (users r) userId)"

definition holds_entry :: "server \<Rightarrow> string \<Rightarrow> nat \<Rightarrow> ws \<Rightarrow> bool" where
  "holds_entry s roomId userId c =
     (case find_user s roomId userId of None \<Rightarrow> False | Some u \<Rightarrow> user_ws u = c)"

definition entry_ids :: "server \<Rightarrow> string \<Rightarrow> nat list" where
  "entry_ids s roomId =
     (case rooms (roomManager s) roomId of None \<Rightarrow> [] | Some r \<Rightarrow> map fst (users r))"

section \<open>The registry seen through its memberships\<close>

text \<open>
  The definitions of this section are not code of the repository; the proofs about runs of
  the server use them. A handler changes three things that matter for who is a member of
  what: the participant entries and id counter of each room, the two variables of each
  connection, and which sockets are closed. \<open>skel\<close> keeps of a room the pairs of id and
  connection handle, in order, and the counter; \<open>join_skel\<close>, \<open>leave_skel\<close> and
  \<open>close_skel\<close> are what \<^verbatim>\<open>addUser\<close>, \<^verbatim>\<open>removeUser\<close> and the close handler
  do to it. \<open>keeps\<close> says that sending changes neither \<^verbatim>\<open>readyState\<close> nor whether
  \<^verbatim>\<open>send\<close> raises.
\<close>

definition room_members :: "room \<Rightarrow> (nat \<times> ws) list" where
  "room_members r = map (\<lambda>(k, u). (k, user_ws u)) (users r)"

type_synonym skeleton = "string \<Rightarrow> ((nat \<times> ws) list \<times> nat) option"

definition skel :: "RoomManager \<Rightarrow> string \<Rightarrow> ((nat \<times> ws) list \<times> nat) option" where
  "skel m roomId = map_option (\<lambda>r. (room_members r, nextUserId r)) (rooms m roomId)"

definition keeps :: "world \<Rightarrow> completion \<times> world \<Rightarrow> bool" where
  "keeps W r \<longleftrightarrow>
     (\<forall>d. readyState (snd r d) = readyState (W d) \<and> sendThrows (snd r d) = sendThrows (W d))"

definition join_id :: "skeleton \<Rightarrow> string \<Rightarrow> nat" where
  "join_id K roomId = (case K roomId of None \<Rightarrow> 1 | Some (mem, n) \<Rightarrow> n)"

definition join_skel :: "skeleton \<Rightarrow> string \<Rightarrow> ws \<Rightarrow> skeleton" where
  "join_skel K roomId c =
     K(roomId \<mapsto> (case K roomId of
                      None \<Rightarrow> ([(1, c)], 2)
                    | Some (mem, n) \<Rightarrow> (AList.update n c mem, n + 1)))"

definition leave_skel :: "skeleton \<Rightarrow> string \<Rightarrow> nat \<Rightarrow> skeleton" where
  "leave_skel K roomId userId =
     (case K roomId of
        None \<Rightarrow> K
      | Some (mem, n) \<Rightarrow>
          if AList.delete userId mem = [] then K(roomId := None)
          else K(roomId \<mapsto> (AList.delete userId mem, n)))"

definition close_skel :: "skeleton \<Rightarrow> conn \<Rightarrow> skeleton" where
  "close_skel K cn =
     (case (currentRoomId cn, currentUserId cn) of
        (Some roomId, Some userId) \<Rightarrow>
          if roomId \<noteq> [] \<and> userId \<noteq> 0 then leave_skel K roomId userId else K
      | _ \<Rightarrow> K)"

definition at_entry :: "conn \<Rightarrow> string \<Rightarrow> nat \<Rightarrow> bool" where
  "at_entry cn roomId userId \<longleftrightarrow>
     currentRoomId cn = Some roomId \<and> currentUserId cn = Some userId"

definition has_entry :: "skeleton \<Rightarrow> string \<Rightarrow> nat \<Rightarrow> ws \<Rightarrow> bool" where
  "has_entry K roomId userId c =
     (case K roomId of None \<Rightarrow> False | Some (mem, n) \<Rightarrow> map_of mem userId = Some c)"

definition live :: "server \<Rightarrow> ws \<Rightarrow> bool" where
  "live s c \<longleftrightarrow> readyState (socks s c) \<noteq> 3"

text \<open>
  \<open>reg\<close>: every room has a participant, ids are positive and below the room's counter, and
  the current membership of a connection that is not closed is an entry of its room that
  holds this very connection. \<open>stale\<close>: the entry \<open>u\<close> of room \<open>R\<close> holds
  connection \<open>c0\<close>, and it is the current membership of no connection that is not
  closed.
\<close>

definition reg :: "skeleton \<Rightarrow> (ws \<Rightarrow> conn) \<Rightarrow> (ws \<Rightarrow> bool) \<Rightarrow> bool" where
  "reg K C L \<longleftrightarrow>
     (\<forall>R mem n. K R = Some (mem, n) \<longrightarrow>
        mem \<noteq> [] \<and> (\<forall>k \<in> fst ` set mem. k \<noteq> 0 \<and> k < n)) \<and>
     (\<forall>c R u. L c \<and> at_entry (C c) R u \<longrightarrow> R \<noteq> [] \<and> u \<noteq> 0 \<and> has_entry K R u c)"

definition stale :: "skeleton \<Rightarrow> (ws \<Rightarrow> conn) \<Rightarrow> (ws \<Rightarrow> bool) \<Rightarrow> string \<Rightarrow> nat \<Rightarrow> ws \<Rightarrow> bool" where
  "stale K C L R u c0 \<longleftrightarrow>
     reg K C L \<and> has_entry K R u c0 \<and> (\<forall>d. L d \<longrightarrow> \<not> at_entry (C d) R u)"

definition registry_ok :: "server \<Rightarrow> bool" where
  "registry_ok s \<longleftrightarrow> reg (skel (roomManager s)) (conns s) (live s)"

definition stale_entry :: "server \<Rightarrow> string \<Rightarrow> nat \<Rightarrow> ws \<Rightarrow> bool" where
  "stale_entry s R u c0 \<longleftrightarrow> stale (skel (roomManager s)) (conns s) (live s) R u c0"

section \<open>Concrete states\<close>

text \<open>
  A store of open sockets on which \<^verbatim>\<open>send\<close> never raises, the same store with one
  socket on which it does, the same store with one socket closed, and a server with the
  single room \<^verbatim>\<open>r1\<close>, whose connection \<open>0\<close> has joined it as participant \<open>1\<close>.
\<close>

definition open_world :: world where
  "open_world = (\<lambda>c. \<lparr>readyState = 1, sendThrows = False, sent = []\<rparr>)"



definition demo_user :: "nat \<Rightarrow> ws \<Rightarrow> user" where
  "demo_user uid c =
     \<lparr>user_id = uid, username = ''User '' @ show_nat uid,
      user_color = userColors ! ((uid - 1) mod 8), user_ws = c, cursor = None\<rparr>"

definition demo_op :: operation where
  "demo_op =
     \<lparr>op_type = DrawEnd, op_userId = Some 1, op_tool = ''brush'', op_color = ''black'',
      op_lineWidth = 3, op_x = 10, op_y = 10, op_timestamp = 103, operationId = Some 0\<rparr>"

definition demo_room :: "(nat \<times> user) list \<Rightarrow> operation DrawingState \<Rightarrow> room" where
  "demo_room us d =
     \<lparr>room_id = ''r1'', users = us, drawingState = d, nextUserId = length us + 1\<rparr>"

definition demo_server :: "(nat \<times> user) list \<Rightarrow> operation DrawingState \<Rightarrow> world \<Rightarrow> server" where
  "demo_server us d W =
     \<lparr>roomManager = \<lparr>rooms = [''r1'' \<mapsto> demo_room us d], colorIndex = length us\<rparr>,
      conns = (\<lambda>c. if c = 0 then \<lparr>currentUserId = Some 1, currentRoomId = Some ''r1''\<rparr>
                   else \<lparr>currentUserId = None, currentRoomId = None\<rparr>),
      socks = W\<rparr>"

text \<open>
  Connection \<open>0\<close> joins room \<^verbatim>\<open>r1\<close> and draws one stroke: draw-start at \<open>(0,0)\<close>,
  draw-move at \<open>(5,5)\<close>, draw-end at \<open>(10,10)\<close>, brush, black, width \<open>3\<close>.
\<close>

definition gesture :: "event list" where
  "gesture =
     [Message 0 (Join (Some ''r1'') None) 100,
      Message 0 (Drawing DrawStart ''brush'' ''black'' 3 0 0) 101,
      Message 0 (Drawing DrawMove ''brush'' ''black'' 3 5 5) 102,
      Message 0 (Drawing DrawEnd ''brush'' ''black'' 3 10 10) 103]"

section \<open>Properties of the operation log\<close>

lemma js_slice0_take: "0 \<le> e \<Longrightarrow> js_slice0 xs e = take (nat e) xs"
  by (auto simp: js_slice0_def Let_def min_def)

lemma visible_take:
  "- 1 \<le> currentIndex s \<Longrightarrow>
   getVisibleOperations s = take (nat (currentIndex s + 1)) (operations s)"
  by (simp add: getVisibleOperations_def js_slice0_take)

lemma addOperation_visible:
  "operations (snd (addOperation s x)) = getVisibleOperations s @ [x]"
  by (simp add: addOperation_def getVisibleOperations_def Let_def)

lemma log_inv_new: "log_inv new_DrawingState"
  by (simp add: log_inv_def)

lemma log_inv_addOperation: "log_inv s \<Longrightarrow> log_inv (snd (addOperation s x))"
  by (auto simp: log_inv_def addOperation_def Let_def js_slice0_take)

lemma log_inv_undo: "log_inv s \<Longrightarrow> log_inv (snd (undo s))"
  by (auto simp: log_inv_def undo_def Let_def)

lemma log_inv_redo: "log_inv s \<Longrightarrow> log_inv (snd (redo s))"
  by (auto simp: log_inv_def redo_def Let_def)

lemma log_inv_clear: "log_inv (clear s)"
  by (simp add: log_inv_def clear_def)

lemma log_inv_commits_aux:
  "log_inv s \<Longrightarrow> log_inv (foldl (\<lambda>s operation. snd (addOperation s operation)) s ops)"
  by (induction ops arbitrary: s) (simp_all add: log_inv_addOperation)

lemma log_inv_commits: "log_inv (commits ops)"
  unfolding commits_def by (rule log_inv_commits_aux [OF log_inv_new])

lemma undo_times_shift:
  "int m \<le> currentIndex s + 1 \<Longrightarrow>
   undo_times m s = Some (s\<lparr>currentIndex := currentIndex s - int m\<rparr>)"
proof (induction m arbitrary: s)
  case 0
  then show ?case by simp
next
  case (Suc m)
  let ?s' = "s\<lparr>currentIndex := currentIndex s - 1\<rparr>"
  from Suc.prems have pos: "currentIndex s \<ge> 0" by simp
  from Suc.prems have "int m \<le> currentIndex ?s' + 1" by simp
  from Suc.IH [OF this] pos show ?case
    by (simp add: undo_def Let_def algebra_simps)
qed

lemma redo_times_shift:
  "currentIndex s + int m \<le> int (length (operations s)) - 1 \<Longrightarrow>
   redo_times m s = Some (s\<lparr>currentIndex := currentIndex s + int m\<rparr>)"
proof (induction m arbitrary: s)
  case 0
  then show ?case by simp
next
  case (Suc m)
  let ?s' = "s\<lparr>currentIndex := currentIndex s + 1\<rparr>"
  from Suc.prems have lt: "currentIndex s < int (length (operations s)) - 1" by simp
  from Suc.prems have "currentIndex ?s' + int m \<le> int (length (operations ?s')) - 1" by simp
  from Suc.IH [OF this] lt show ?case
    by (simp add: redo_def Let_def algebra_simps)
qed

lemma undo_redo_times:
  assumes "log_inv s" and "m \<le> length (getVisibleOperations s)"
  shows "\<exists>s1. undo_times m s = Some s1 \<and> redo_times m s1 = Some s"
proof -
  from assms(1) have lo: "- 1 \<le> currentIndex s"
    and hi: "currentIndex s \<le> int (length (operations s)) - 1"
    by (simp_all add: log_inv_def)
  from assms(2) lo hi have m: "int m \<le> currentIndex s + 1"
    by (simp add: visible_take)
  let ?s1 = "s\<lparr>currentIndex := currentIndex s - int m\<rparr>"
  have u: "undo_times m s = Some ?s1" by (rule undo_times_shift [OF m])
  have "currentIndex ?s1 + int m \<le> int (length (operations ?s1)) - 1" using hi by simp
  from redo_times_shift [OF this] have "redo_times m ?s1 = Some s" by simp
  with u show ?thesis by blast
qed

text \<open>
  C1. A commit on a log of length \<open>n\<close> whose cursor \<open>k\<close> is below \<open>n - 1\<close> drops the
  strokes at \<open>k+1..n-1\<close>, appends the new stroke, leaves length \<open>k + 2\<close> and cursor
  \<open>k + 1\<close>, and returns that index. For every log state whatsoever, the stored sequence
  after \<^verbatim>\<open>addOperation(x)\<close> is the old visible sequence followed by \<open>x\<close>.
\<close>

theorem addOperation_truncates_redo_tail:
  "operations (snd (addOperation s x)) = getVisibleOperations s @ [x] \<and>
   (- 1 \<le> currentIndex s \<and> currentIndex s < int (length (operations s)) - 1 \<longrightarrow>
      operations (snd (addOperation s x)) = take (nat (currentIndex s + 1)) (operations s) @ [x] \<and>
      int (length (operations (snd (addOperation s x)))) = currentIndex s + 2 \<and>
      currentIndex (snd (addOperation s x)) = currentIndex s + 1 \<and>
      fst (addOperation s x) = currentIndex s + 1)"
  by (auto simp: addOperation_def getVisibleOperations_def Let_def js_slice0_take)

theorem addOperation_truncates_redo_tail_witness:
  "operations (snd (addOperation \<lparr>operations = [10, 20, 30 :: nat], currentIndex = 0\<rparr> 40))
     = [10, 40] \<and>
   fst (addOperation \<lparr>operations = [10, 20, 30 :: nat], currentIndex = 0\<rparr> 40) = 1 \<and>
   currentIndex (snd (addOperation \<lparr>operations = [10, 20, 30 :: nat], currentIndex = 0\<rparr> 40)) = 1"
  using addOperation_truncates_redo_tail
          [of "\<lparr>operations = [10, 20, 30 :: nat], currentIndex = 0\<rparr>" 40]
  by (simp add: getVisibleOperations_def js_slice0_def)

text \<open>
  C4. From a log reached by any sequence of commits, \<open>m\<close> undo calls succeed when \<open>m\<close> does
  not exceed the number of visible strokes, \<open>m\<close> redo calls succeed after them, and the log
  (so its visible sequence) is then what it was before the undos.
\<close>

theorem undo_redo_inverse:
  assumes "m \<le> length (getVisibleOperations (commits ops))"
  shows "\<exists>s1 s2. undo_times m (commits ops) = Some s1 \<and> redo_times m s1 = Some s2 \<and>
           getVisibleOperations s2 = getVisibleOperations (commits ops)"
  using undo_redo_times [OF log_inv_commits assms] by auto

theorem undo_redo_inverse_witness:
  "(2::nat) \<le> length (getVisibleOperations (commits [1, 2, 3 :: nat])) \<and>
   (\<exists>s1 s2. undo_times 2 (commits [1, 2, 3 :: nat]) = Some s1 \<and> redo_times 2 s1 = Some s2 \<and>
      getVisibleOperations s2 = getVisibleOperations (commits [1, 2, 3 :: nat]))"
proof -
  have h: "(2::nat) \<le> length (getVisibleOperations (commits [1, 2, 3 :: nat]))"
    by (simp add: commits_def addOperation_def getVisibleOperations_def js_slice0_def)
  from undo_redo_inverse [OF h] h show ?thesis by blast
qed

text \<open>
  C6. The bound \<open>- 1 \<le> currentIndex \<le> length - 1\<close> (which gives
  \<open>currentIndex < max length 1\<close>) holds for the new log and is preserved by
  \<^verbatim>\<open>addOperation\<close>, \<^verbatim>\<open>undo\<close>, \<^verbatim>\<open>redo\<close> and \<^verbatim>\<open>clear\<close>; under it
  \<^verbatim>\<open>getVisibleOperations\<close> is the prefix of the stored sequence at indices
  \<open>0..currentIndex\<close>.
\<close>

theorem log_invariant:
  "log_inv (new_DrawingState :: 'a DrawingState) \<and>
   (log_inv (s :: 'a DrawingState) \<longrightarrow>
      log_inv (snd (addOperation s x)) \<and> log_inv (snd (undo s)) \<and> log_inv (snd (redo s)) \<and>
      log_inv (clear s) \<and>
      currentIndex s < max (int (length (operations s))) 1 \<and>
      getVisibleOperations s = take (nat (currentIndex s + 1)) (operations s) \<and>
      int (length (getVisibleOperations s)) = currentIndex s + 1)"
proof (intro conjI impI)
  show "log_inv (new_DrawingState :: 'a DrawingState)" by (rule log_inv_new)
next
  assume "log_inv s"
  then show "log_inv (snd (addOperation s x))" by (rule log_inv_addOperation)
next
  assume "log_inv s"
  then show "log_inv (snd (undo s))" by (rule log_inv_undo)
next
  assume "log_inv s"
  then show "log_inv (snd (redo s))" by (rule log_inv_redo)
next
  show "log_inv (clear s)" by (rule log_inv_clear)
next
  assume "log_inv s"
  then show "currentIndex s < max (int (length (operations s))) 1"
    by (auto simp: log_inv_def max_def)
next
  assume "log_inv s"
  then show "getVisibleOperations s = take (nat (currentIndex s + 1)) (operations s)"
    by (simp add: log_inv_def visible_take)
next
  assume "log_inv s"
  then show "int (length (getVisibleOperations s)) = currentIndex s + 1"
    by (auto simp: log_inv_def visible_take min_def)
qed

theorem log_invariant_witness:
  "log_inv \<lparr>operations = [10, 20, 30 :: nat], currentIndex = 1\<rparr> \<and>
   log_inv (snd (addOperation \<lparr>operations = [10, 20, 30 :: nat], currentIndex = 1\<rparr> 40)) \<and>
   log_inv (snd (undo \<lparr>operations = [10, 20, 30 :: nat], currentIndex = 1\<rparr>)) \<and>
   log_inv (snd (redo \<lparr>operations = [10, 20, 30 :: nat], currentIndex = 1\<rparr>)) \<and>
   getVisibleOperations \<lparr>operations = [10, 20, 30 :: nat], currentIndex = 1\<rparr> = [10, 20]"
proof -
  have h: "log_inv \<lparr>operations = [10, 20, 30 :: nat], currentIndex = 1\<rparr>"
    by (simp add: log_inv_def)
  from log_invariant [of "\<lparr>operations = [10, 20, 30 :: nat], currentIndex = 1\<rparr>" 40] h
  show ?thesis by simp
qed

section \<open>Properties of the handler and the registry\<close>

text \<open>The definitions a run of the handlers on a concrete state unfolds.\<close>

lemmas handler_defs =
  step_def on_message_def on_close_def try_catch_def and_then_def ws_send_def
  broadcastToRoom_def getRoom_def put_room_def room_key_def addUser_def getOrCreateRoom_def
  removeUser_def updateUserCursor_def getUserList_def userColors_def new_server_def
  new_RoomManager_def open_world_def getVisibleOperations_def js_slice0_def addOperation_def
  undo_def redo_def clear_def Let_def

lemma put_room_same: "getRoom m rid = Some r \<Longrightarrow> put_room m rid r = m"
  by (cases rid) (auto simp: getRoom_def put_room_def map_upd_triv)

lemma undo_floor: "currentIndex d < 0 \<Longrightarrow> undo d = (Failure, d)"
  by (simp add: undo_def)

lemma redo_ceiling: "currentIndex d \<ge> int (length (operations d)) - 1 \<Longrightarrow> redo d = (Failure, d)"
  by (simp add: redo_def)

text \<open>
  C5. With the cursor at \<open>- 1\<close>, \<^verbatim>\<open>undo\<close> returns failure and leaves the log as it
  was; with the cursor at \<open>length - 1\<close>, so does \<^verbatim>\<open>redo\<close>. In both cases the message
  handler returns the server unchanged: no socket is handed any message.
\<close>

theorem undo_redo_fail_cleanly:
  "(currentIndex d = - 1 \<longrightarrow> undo d = (Failure, d)) \<and>
   (currentIndex d = int (length (operations d)) - 1 \<longrightarrow> redo d = (Failure, d)) \<and>
   (getRoom (roomManager s) (currentRoomId (conns s c)) = Some r \<and>
    currentIndex (drawingState r) = - 1 \<longrightarrow> on_message s c UndoReq now = Some s) \<and>
   (getRoom (roomManager s) (currentRoomId (conns s c)) = Some r \<and>
    currentIndex (drawingState r) = int (length (operations (drawingState r))) - 1 \<longrightarrow>
      on_message s c RedoReq now = Some s)"
proof (intro conjI impI)
  show "currentIndex d = - 1 \<Longrightarrow> undo d = (Failure, d)" by (simp add: undo_floor)
next
  show "currentIndex d = int (length (operations d)) - 1 \<Longrightarrow> redo d = (Failure, d)"
    by (simp add: redo_ceiling)
next
  assume "getRoom (roomManager s) (currentRoomId (conns s c)) = Some r \<and>
    currentIndex (drawingState r) = - 1"
  then show "on_message s c UndoReq now = Some s"
    by (simp add: on_message_def undo_floor put_room_same try_catch_def)
next
  assume "getRoom (roomManager s) (currentRoomId (conns s c)) = Some r \<and>
    currentIndex (drawingState r) = int (length (operations (drawingState r))) - 1"
  then show "on_message s c RedoReq now = Some s"
    by (simp add: on_message_def redo_ceiling put_room_same try_catch_def)
qed

theorem undo_redo_fail_cleanly_witness:
  "undo (new_DrawingState :: operation DrawingState) = (Failure, new_DrawingState) \<and>
   redo (new_DrawingState :: operation DrawingState) = (Failure, new_DrawingState) \<and>
   on_message (demo_server [(1, demo_user 1 0)] new_DrawingState open_world) 0 UndoReq 7
     = Some (demo_server [(1, demo_user 1 0)] new_DrawingState open_world) \<and>
   on_message (demo_server [(1, demo_user 1 0)] new_DrawingState open_world) 0 RedoReq 7
     = Some (demo_server [(1, demo_user 1 0)] new_DrawingState open_world)"
  using undo_redo_fail_cleanly [of new_DrawingState
          "demo_server [(1, demo_user 1 0)] new_DrawingState open_world" 0
          "demo_room [(1, demo_user 1 0)] new_DrawingState" 7]
  by (simp add: demo_server_def demo_room_def getRoom_def)

lemma delete_only: "fst ` set us \<subseteq> {uid} \<Longrightarrow> AList.delete uid us = []"
  by (induction us) (auto simp: AList.delete_eq)

text \<open>
  C8. When the only participant of a room leaves, \<^verbatim>\<open>removeUser\<close> returns \<^verbatim>\<open>null\<close>
  and the room is gone from the registry; a join with the same key then creates a room whose
  log is empty, and the joiner gets id \<open>1\<close>.
\<close>

theorem empty_room_teardown:
  assumes "rooms m k = Some r" and "fst ` set (users r) = {uid}"
  shows "fst (removeUser m k uid) = None \<and>
         rooms (snd (removeUser m k uid)) k = None \<and>
         (case addUser (snd (removeUser m k uid)) k c name of (u, r', m') \<Rightarrow>
            user_id u = 1 \<and> users r' = [(1, u)] \<and> nextUserId r' = 2 \<and>
            operations (drawingState r') = [] \<and>
            getVisibleOperations (drawingState r') = [] \<and>
            rooms m' k = Some r')"
proof -
  from assms(2) have del: "AList.delete uid (users r) = []" by (simp add: delete_only)
  with assms(1) have rm: "removeUser m k uid = (None, m\<lparr>rooms := (rooms m)(k := None)\<rparr>)"
    by (simp add: removeUser_def Let_def)
  show ?thesis
    by (simp add: rm addUser_def getOrCreateRoom_def Let_def getVisibleOperations_def js_slice0_def)
qed

theorem empty_room_teardown_witness:
  "fst (removeUser (roomManager (demo_server [(1, demo_user 1 0)] (commits [demo_op]) open_world)) ''r1'' 1) = None \<and>
   (case addUser (snd (removeUser (roomManager (demo_server [(1, demo_user 1 0)] (commits [demo_op]) open_world)) ''r1'' 1)) ''r1'' 5 None of
      (u, r', m') \<Rightarrow> user_id u = 1 \<and> getVisibleOperations (drawingState r') = [])"
proof -
  let ?m = "roomManager (demo_server [(1, demo_user 1 0)] (commits [demo_op]) open_world)"
  have h1: "rooms ?m ''r1'' = Some (demo_room [(1, demo_user 1 0)] (commits [demo_op]))"
    by (simp add: demo_server_def)
  have h2: "fst ` set (users (demo_room [(1, demo_user 1 0)] (commits [demo_op]))) = {1}"
    by (simp add: demo_room_def)
  from empty_room_teardown [OF h1 h2, of 5 None] show ?thesis
    by (simp split: prod.splits)
qed

lemma deliver_Nil: "deliver [] msg W = W"
  by (simp add: deliver_def)

lemma recipients_cong:
  "(\<And>c. readyState (W' c) = readyState (W c)) \<Longrightarrow> recipients us ex W' = recipients us ex W"
  by (simp add: recipients_def)

lemma deliver_Cons:
  "deliver cs msg (W(c := (W c)\<lparr>sent := sent (W c) @ [msg]\<rparr>)) = deliver (c # cs) msg W"
  by (rule ext) (simp add: deliver_def replicate_append_same)

lemma deliver_snoc:
  "(deliver cs msg W)(c := (deliver cs msg W c)\<lparr>sent := sent (deliver cs msg W c) @ [msg]\<rparr>)
     = deliver (cs @ [c]) msg W"
  by (rule ext) (simp add: deliver_def replicate_append_same)

lemma broadcast_loop_normal:
  "\<forall>c \<in> set (recipients us ex W). \<not> sendThrows (W c) \<Longrightarrow>
   broadcast_loop us msg ex W = (Normal, deliver (recipients us ex W) msg W)"
proof (induction us arbitrary: W)
  case Nil
  then show ?case by (simp add: recipients_def deliver_Nil)
next
  case (Cons p us)
  obtain uid u where p: "p = (uid, u)" by (cases p)
  show ?case
  proof (cases "Some uid \<noteq> ex \<and> readyState (W (user_ws u)) = 1")
    case False
    then have r: "recipients (p # us) ex W = recipients us ex W"
      by (auto simp: recipients_def p)
    with Cons.prems have "\<forall>c \<in> set (recipients us ex W). \<not> sendThrows (W c)" by simp
    from Cons.IH [OF this] False r show ?thesis by (auto simp: p)
  next
    case True
    let ?c = "user_ws u"
    let ?W = "W(?c := (W ?c)\<lparr>sent := sent (W ?c) @ [msg]\<rparr>)"
    from True have r: "recipients (p # us) ex W = ?c # recipients us ex W"
      by (simp add: recipients_def p)
    have r': "recipients us ex ?W = recipients us ex W"
      by (rule recipients_cong) simp
    from Cons.prems r have nt: "\<not> sendThrows (W ?c)" by simp
    from Cons.prems r have "\<forall>c \<in> set (recipients us ex ?W). \<not> sendThrows (?W c)"
      by (simp add: r')
    from Cons.IH [OF this]
    have "broadcast_loop us msg ex ?W = (Normal, deliver (recipients us ex ?W) msg ?W)" .
    then have "broadcast_loop us msg ex ?W = (Normal, deliver (?c # recipients us ex W) msg W)"
      by (simp only: r' deliver_Cons)
    with True nt r show ?thesis by (simp add: p ws_send_def)
  qed
qed






lemma getRoom_put_room: "getRoom m rid = Some r \<Longrightarrow> getRoom (put_room m rid r') rid = Some r'"
  by (cases rid) (auto simp: getRoom_def put_room_def)

lemma deliver_keeps_flags:
  "sendThrows (deliver cs msg W c) = sendThrows (W c)"
  "readyState (deliver cs msg W c) = readyState (W c)"
  by (simp_all add: deliver_def)

lemma broadcast_then_send:
  assumes "getRoom m rid = Some r"
      and "\<forall>d \<in> set (recipients (users r) None W). \<not> sendThrows (W d)"
      and "\<not> sendThrows (W c)"
  shows "try_catch s c (and_then (broadcastToRoom m rid msg None W) (\<lambda>W'. ws_send W' c msg))
           = Some (s\<lparr>socks := deliver (recipients (users r) None W @ [c]) msg W\<rparr>)"
proof -
  from assms(1,2)
  have b: "broadcastToRoom m rid msg None W = (Normal, deliver (recipients (users r) None W) msg W)"
    by (simp add: broadcastToRoom_def broadcast_loop_normal)
  let ?D = "deliver (recipients (users r) None W) msg W"
  from assms(3) have "ws_send ?D c msg = (Normal, ?D(c := (?D c)\<lparr>sent := sent (?D c) @ [msg]\<rparr>))"
    by (simp add: ws_send_def deliver_keeps_flags)
  then have "ws_send ?D c msg = (Normal, deliver (recipients (users r) None W @ [c]) msg W)"
    by (simp only: deliver_snoc)
  with b show ?thesis by (simp add: try_catch_def and_then_def)
qed

lemma count_recipients_distinct:
  "distinct (map (\<lambda>(uid, u). user_ws u) us) \<Longrightarrow> (uid, u) \<in> set us \<Longrightarrow>
   readyState (W (user_ws u)) = 1 \<Longrightarrow> count_list (recipients us None W) (user_ws u) = 1"
proof (induction us)
  case Nil
  then show ?case by simp
next
  case (Cons p us)
  obtain uid' u' where p: "p = (uid', u')" by (cases p)
  show ?case
  proof (cases "(uid, u) = p")
    case True
    from Cons.prems(1) have "user_ws u' \<notin> (\<lambda>(uid, u). user_ws u) ` set us" by (simp add: p)
    then have "user_ws u' \<notin> set (recipients us None W)"
      by (auto simp: recipients_def)
    then have "count_list (recipients us None W) (user_ws u') = 0" by (simp add: count_notin)
    with True Cons.prems(3) show ?thesis by (simp add: p recipients_def)
  next
    case False
    with Cons.prems have mem: "(uid, u) \<in> set us" by simp
    from Cons.prems(1) have d: "distinct (map (\<lambda>(uid, u). user_ws u) us)" by simp
    from Cons.prems(1) mem have ne: "user_ws u' \<noteq> user_ws u" by (force simp: p)
    from Cons.IH [OF d mem Cons.prems(3)] ne show ?thesis
      by (simp add: p recipients_def)
  qed
qed

text \<open>
  C9 (as amended). On a successful undo or redo, and on a clear, from a connection whose
  room exists, if no \<^verbatim>\<open>send\<close> raises, every connection is handed the state message once
  for each open participant entry of the room that holds it (the broadcast excludes
  nobody), and the requesting connection once more by the direct \<^verbatim>\<open>send\<close>. When the
  participant entries of the room hold pairwise different connections, that is twice for
  an open requester and once for every other open participant.
\<close>

theorem state_message_deliveries:
  assumes "getRoom (roomManager s) (currentRoomId (conns s c)) = Some r"
      and "\<forall>d \<in> set (recipients (users r) None (socks s)). \<not> sendThrows (socks s d)"
      and "\<not> sendThrows (socks s c)"
  shows "(\<forall>idx ops d. undo (drawingState r) = (Success idx ops, d) \<longrightarrow>
            (\<exists>s'. on_message s c UndoReq now = Some s' \<and>
                  socks s' = deliver (recipients (users r) None (socks s) @ [c])
                               (UndoMsg idx ops) (socks s))) \<and>
         (\<forall>idx ops d. redo (drawingState r) = (Success idx ops, d) \<longrightarrow>
            (\<exists>s'. on_message s c RedoReq now = Some s' \<and>
                  socks s' = deliver (recipients (users r) None (socks s) @ [c])
                               (RedoMsg idx ops) (socks s))) \<and>
         (\<exists>s'. on_message s c ClearReq now = Some s' \<and>
               socks s' = deliver (recipients (users r) None (socks s) @ [c]) ClearMsg (socks s)) \<and>
         (distinct (map (\<lambda>(uid, u). user_ws u) (users r)) \<longrightarrow>
            (\<forall>(uid, u) \<in> set (users r). readyState (socks s (user_ws u)) = 1 \<longrightarrow>
               count_list (recipients (users r) None (socks s) @ [c]) (user_ws u)
                 = (if user_ws u = c then 2 else 1)))"
proof (intro conjI allI impI)
  fix idx ops d
  assume u: "undo (drawingState r) = (Success idx ops, d)"
  let ?r = "r\<lparr>drawingState := d\<rparr>"
  let ?m = "put_room (roomManager s) (currentRoomId (conns s c)) ?r"
  have g: "getRoom ?m (currentRoomId (conns s c)) = Some ?r"
    by (rule getRoom_put_room [OF assms(1)])
  have us: "users ?r = users r" by simp
  from broadcast_then_send [OF g, unfolded us, OF assms(2,3)] assms(1) u
  show "\<exists>s'. on_message s c UndoReq now = Some s' \<and>
          socks s' = deliver (recipients (users r) None (socks s) @ [c]) (UndoMsg idx ops) (socks s)"
    by (simp add: on_message_def)
next
  fix idx ops d
  assume u: "redo (drawingState r) = (Success idx ops, d)"
  let ?r = "r\<lparr>drawingState := d\<rparr>"
  let ?m = "put_room (roomManager s) (currentRoomId (conns s c)) ?r"
  have g: "getRoom ?m (currentRoomId (conns s c)) = Some ?r"
    by (rule getRoom_put_room [OF assms(1)])
  have us: "users ?r = users r" by simp
  from broadcast_then_send [OF g, unfolded us, OF assms(2,3)] assms(1) u
  show "\<exists>s'. on_message s c RedoReq now = Some s' \<and>
          socks s' = deliver (recipients (users r) None (socks s) @ [c]) (RedoMsg idx ops) (socks s)"
    by (simp add: on_message_def)
next
  let ?r = "r\<lparr>drawingState := clear (drawingState r)\<rparr>"
  let ?m = "put_room (roomManager s) (currentRoomId (conns s c)) ?r"
  have g: "getRoom ?m (currentRoomId (conns s c)) = Some ?r"
    by (rule getRoom_put_room [OF assms(1)])
  have us: "users ?r = users r" by simp
  from broadcast_then_send [OF g, unfolded us, OF assms(2,3)] assms(1)
  show "\<exists>s'. on_message s c ClearReq now = Some s' \<and>
          socks s' = deliver (recipients (users r) None (socks s) @ [c]) ClearMsg (socks s)"
    by (simp add: on_message_def)
next
  assume d: "distinct (map (\<lambda>(uid, u). user_ws u) (users r))"
  show "\<forall>(uid, u) \<in> set (users r). readyState (socks s (user_ws u)) = 1 \<longrightarrow>
               count_list (recipients (users r) None (socks s) @ [c]) (user_ws u)
                 = (if user_ws u = c then 2 else 1)"
    using count_recipients_distinct [OF d] by auto
qed

theorem state_message_deliveries_witness:
  "(\<exists>s'. on_message
          (demo_server [(1, demo_user 1 0), (2, demo_user 2 1)] (commits [demo_op]) open_world)
          0 UndoReq 7 = Some s' \<and>
        sent (socks s' 0) = [UndoMsg (- 1) [], UndoMsg (- 1) []] \<and>
        sent (socks s' 1) = [UndoMsg (- 1) []] \<and>
        sent (socks s' 2) = []) \<and>
   (\<exists>s'. on_message
          (demo_server [(1, demo_user 1 0), (2, demo_user 2 1)]
             \<lparr>operations = [demo_op], currentIndex = - 1\<rparr> open_world)
          0 RedoReq 7 = Some s' \<and>
        sent (socks s' 0) = [RedoMsg 0 [demo_op], RedoMsg 0 [demo_op]] \<and>
        sent (socks s' 1) = [RedoMsg 0 [demo_op]]) \<and>
   count_list (recipients [(1, demo_user 1 0), (2, demo_user 2 1)] None open_world @ [0]) 0 = 2 \<and>
   count_list (recipients [(1, demo_user 1 0), (2, demo_user 2 1)] None open_world @ [0]) 1 = 1"
proof -
  let ?us = "[(1, demo_user 1 0), (2, demo_user 2 1)]"
  let ?s = "demo_server ?us (commits [demo_op]) open_world"
  let ?r = "demo_room ?us (commits [demo_op])"
  let ?d = "\<lparr>operations = [demo_op], currentIndex = - 1\<rparr>"
  let ?t = "demo_server ?us ?d open_world"
  let ?q = "demo_room ?us ?d"
  have g: "getRoom (roomManager ?s) (currentRoomId (conns ?s 0)) = Some ?r"
    by (simp add: demo_server_def getRoom_def)
  have rc: "recipients (users ?r) None (socks ?s) = [0, 1]"
    by (simp add: recipients_def demo_room_def demo_server_def demo_user_def open_world_def)
  have nt: "\<forall>d \<in> set (recipients (users ?r) None (socks ?s)). \<not> sendThrows (socks ?s d)"
    by (simp add: demo_server_def open_world_def)
  have nt0: "\<not> sendThrows (socks ?s 0)"
    by (simp add: demo_server_def open_world_def)
  have u: "undo (drawingState ?r)
             = (Success (- 1) [], \<lparr>operations = [demo_op], currentIndex = - 1\<rparr>)"
    by (simp add: demo_room_def commits_def addOperation_def undo_def getVisibleOperations_def
          js_slice0_def)
  from state_message_deliveries [OF g nt nt0, of 7, unfolded rc] u
  obtain s' where "on_message ?s 0 UndoReq 7 = Some s'"
    and "socks s' = deliver [0, 1, 0] (UndoMsg (- 1) []) (socks ?s)"
    by auto
  then have a: "\<exists>s'. on_message ?s 0 UndoReq 7 = Some s' \<and>
        sent (socks s' 0) = [UndoMsg (- 1) [], UndoMsg (- 1) []] \<and>
        sent (socks s' 1) = [UndoMsg (- 1) []] \<and>
        sent (socks s' 2) = []"
    by (simp add: deliver_def demo_server_def open_world_def)
  have g': "getRoom (roomManager ?t) (currentRoomId (conns ?t 0)) = Some ?q"
    by (simp add: demo_server_def getRoom_def)
  have rc': "recipients (users ?q) None (socks ?t) = [0, 1]"
    by (simp add: recipients_def demo_room_def demo_server_def demo_user_def open_world_def)
  have nt': "\<forall>d \<in> set (recipients (users ?q) None (socks ?t)). \<not> sendThrows (socks ?t d)"
    by (simp add: demo_server_def open_world_def)
  have nt0': "\<not> sendThrows (socks ?t 0)"
    by (simp add: demo_server_def open_world_def)
  have v: "redo (drawingState ?q)
             = (Success 0 [demo_op], \<lparr>operations = [demo_op], currentIndex = 0\<rparr>)"
    by (simp add: demo_room_def redo_def getVisibleOperations_def js_slice0_def)
  from state_message_deliveries [OF g' nt' nt0', of 7, unfolded rc'] v
  obtain t' where "on_message ?t 0 RedoReq 7 = Some t'"
    and "socks t' = deliver [0, 1, 0] (RedoMsg 0 [demo_op]) (socks ?t)"
    by auto
  then have b: "\<exists>s'. on_message ?t 0 RedoReq 7 = Some s' \<and>
        sent (socks s' 0) = [RedoMsg 0 [demo_op], RedoMsg 0 [demo_op]] \<and>
        sent (socks s' 1) = [RedoMsg 0 [demo_op]]"
    by (simp add: deliver_def demo_server_def open_world_def)
  have dst: "distinct (map (\<lambda>(uid, u). user_ws u) (users ?r))"
    by (simp add: demo_room_def demo_user_def)
  have us: "users ?r = ?us" and so: "socks ?s = open_world"
    by (simp_all add: demo_room_def demo_server_def)
  from state_message_deliveries [OF g nt nt0, of 7] dst
  have "\<forall>(uid, u) \<in> set (users ?r). readyState (socks ?s (user_ws u)) = 1 \<longrightarrow>
          count_list (recipients (users ?r) None (socks ?s) @ [0]) (user_ws u)
            = (if user_ws u = 0 then 2 else 1)"
    by blast
  then have c: "count_list (recipients ?us None open_world @ [0]) 0 = 2 \<and>
                count_list (recipients ?us None open_world @ [0]) 1 = 1"
    unfolding us so by (simp add: demo_user_def open_world_def)
  from a b c show ?thesis by blast
qed

text \<open>
  C9 as stated fails for a connection that joined the room twice: it holds two participant
  entries, so a clear request hands it the message three times.
\<close>

theorem double_join_counterexample:
  "map_option (\<lambda>s. count_list (sent (socks s 0)) ClearMsg)
     (run (new_server open_world)
        [Message 0 (Join (Some ''r1'') None) 1,
         Message 0 (Join (Some ''r1'') None) 2,
         Message 0 ClearReq 3]) = Some 3"
  by (simp add: handler_defs)

section \<open>A second join on one connection\<close>

lemma keeps_refl: "keeps W (k, W)"
  by (simp add: keeps_def)

lemma keeps_ws_send: "keeps W (ws_send W c msg)"
  by (simp add: keeps_def ws_send_def)

lemma keeps_trans: "keeps W (k, W1) \<Longrightarrow> keeps W1 r \<Longrightarrow> keeps W r"
  by (simp add: keeps_def)

lemma keeps_broadcast_loop: "keeps W (broadcast_loop us msg ex W)"
proof (induction us arbitrary: W)
  case Nil
  show ?case by (simp add: keeps_refl)
next
  case (Cons p us)
  obtain uid u where p: "p = (uid, u)" by (cases p)
  show ?case
  proof (cases "Some uid \<noteq> ex \<and> readyState (W (user_ws u)) = 1")
    case False
    then show ?thesis using Cons.IH [of W] by (auto simp: p)
  next
    case True
    obtain k W1 where w: "ws_send W (user_ws u) msg = (k, W1)" by (cases "ws_send W (user_ws u) msg")
    have k1: "keeps W (k, W1)" using keeps_ws_send [of W "user_ws u" msg] by (simp add: w)
    show ?thesis
    proof (cases k)
      case Normal
      from keeps_trans [OF k1 Cons.IH [of W1]] True w Normal show ?thesis by (simp add: p)
    next
      case Raised
      with True w k1 show ?thesis by (simp add: p)
    qed
  qed
qed

lemma keeps_broadcastToRoom: "keeps W (broadcastToRoom m rid msg ex W)"
  by (simp add: broadcastToRoom_def keeps_refl keeps_broadcast_loop split: option.splits)

lemma keeps_and_then:
  "keeps W r \<Longrightarrow> (\<And>W1. keeps W1 (f W1)) \<Longrightarrow> keeps W (and_then r f)"
  by (cases r) (auto simp: and_then_def keeps_def split: completion.splits)

lemma try_catch_effect:
  assumes "try_catch s c r = Some s'" and "keeps (socks s) r"
  shows "roomManager s' = roomManager s \<and> conns s' = conns s \<and>
         (\<forall>d. readyState (socks s' d) = readyState (socks s d))"
  using assms
  by (cases r) (auto simp: try_catch_def keeps_def ws_send_def split: completion.splits if_splits)

lemma try_catch_returns:
  assumes "keeps (socks s) r" and "\<not> sendThrows (socks s c)"
  shows "try_catch s c r \<noteq> None"
  using assms
  by (cases r) (auto simp: try_catch_def keeps_def ws_send_def split: completion.splits)

lemma members_update:
  "map (\<lambda>(k, u). (k, user_ws u)) (AList.update k v al)
     = AList.update k (user_ws v) (map (\<lambda>(k, u). (k, user_ws u)) al)"
  by (induction al) auto

lemma members_delete:
  "map (\<lambda>(k, u). (k, user_ws u)) (AList.delete k al)
     = AList.delete k (map (\<lambda>(k, u). (k, user_ws u)) al)"
  by (induction al) auto

lemma skel_put_room:
  "getRoom m rid = Some r \<Longrightarrow> room_members r' = room_members r \<Longrightarrow>
   nextUserId r' = nextUserId r \<Longrightarrow> skel (put_room m rid r') = skel m"
  by (cases rid) (auto simp: getRoom_def put_room_def skel_def fun_eq_iff)

lemma members_cursor:
  "map_of al k = Some u \<Longrightarrow>
   map (\<lambda>(k, u). (k, user_ws u)) (AList.update k (u\<lparr>cursor := cur\<rparr>) al)
     = map (\<lambda>(k, u). (k, user_ws u)) al"
  by (induction al) (auto split: if_splits)

lemma skel_updateUserCursor:
  "skel (snd (updateUserCursor m rid uid cur)) = skel m"
  by (rule ext)
     (auto simp: updateUserCursor_def skel_def room_members_def members_cursor
           split: option.splits)

lemma members_delete_Nil:
  "(AList.delete k (map (\<lambda>(k, u). (k, user_ws u)) al) = []) = (AList.delete k al = [])"
  by (simp add: members_delete [symmetric])

lemma skel_addUser:
  "skel (snd (snd (addUser m K c name)))
     = (skel m)(K \<mapsto> (case skel m K of
                        None \<Rightarrow> ([(1, c)], 2)
                      | Some (mem, n) \<Rightarrow> (AList.update n c mem, n + 1)))"
  by (rule ext)
     (auto simp: addUser_def getOrCreateRoom_def skel_def room_members_def members_update Let_def
           split: option.splits)

lemma user_id_addUser:
  "user_id (fst (addUser m K c name)) = (case skel m K of None \<Rightarrow> 1 | Some (mem, n) \<Rightarrow> n)"
  by (auto simp: addUser_def getOrCreateRoom_def skel_def Let_def split: option.splits)

lemma skel_removeUser:
  "skel (snd (removeUser m R u))
     = (case skel m R of
          None \<Rightarrow> skel m
        | Some (mem, n) \<Rightarrow>
            if AList.delete u mem = [] then (skel m)(R := None)
            else (skel m)(R \<mapsto> (AList.delete u mem, n)))"
  by (rule ext)
     (auto simp: removeUser_def skel_def room_members_def members_delete members_delete_Nil
              Let_def
           split: option.splits)

lemma history_request_effect:
  assumes "(case res of
              Success idx ops \<Rightarrow>
                try_catch s1 c
                  (and_then (broadcastToRoom m1 rid (mk idx ops) None (socks s1))
                     (\<lambda>W'. ws_send W' c (mk idx ops)))
            | Failure \<Rightarrow> try_catch s1 c (Normal, socks s1)) = Some s'"
  shows "roomManager s' = roomManager s1 \<and> conns s' = conns s1 \<and>
         (\<forall>d. readyState (socks s' d) = readyState (socks s1 d))"
proof (cases res)
  case (Success idx ops)
  with assms have t: "try_catch s1 c
      (and_then (broadcastToRoom m1 rid (mk idx ops) None (socks s1))
         (\<lambda>W'. ws_send W' c (mk idx ops))) = Some s'"
    by simp
  have "keeps (socks s1)
      (and_then (broadcastToRoom m1 rid (mk idx ops) None (socks s1))
         (\<lambda>W'. ws_send W' c (mk idx ops)))"
    by (intro keeps_and_then keeps_broadcastToRoom keeps_ws_send)
  from try_catch_effect [OF t this] show ?thesis .
next
  case Failure
  with assms have "try_catch s1 c (Normal, socks s1) = Some s'" by simp
  from try_catch_effect [OF this keeps_refl] show ?thesis .
qed

lemma on_message_other:
  assumes "on_message s c msg now = Some s'" and "\<forall>rid name. msg \<noteq> Join rid name"
  shows "skel (roomManager s') = skel (roomManager s) \<and> conns s' = conns s \<and>
         (\<forall>d. readyState (socks s' d) = readyState (socks s d))"
proof (cases msg)
  case (Join rid name)
  with assms(2) show ?thesis by simp
next
  case (Drawing ty tool col lw px py)
  show ?thesis
  proof (cases "getRoom (roomManager s) (currentRoomId (conns s c))")
    case None
    with assms(1) Drawing have "try_catch s c (Normal, socks s) = Some s'"
      by (simp add: on_message_def)
    from try_catch_effect [OF this keeps_refl] show ?thesis by simp
  next
    case (Some r)
    show ?thesis
    proof (cases "ty = DrawEnd")
      case False
      with assms(1) Drawing Some obtain op where
        "try_catch s c (broadcastToRoom (roomManager s) (currentRoomId (conns s c)) (Draw op)
            (currentUserId (conns s c)) (socks s)) = Some s'"
        by (simp add: on_message_def Let_def)
      from try_catch_effect [OF this keeps_broadcastToRoom] show ?thesis by simp
    next
      case True
      with assms(1) Drawing Some obtain op d where
        t: "try_catch
             (s\<lparr>roomManager := put_room (roomManager s) (currentRoomId (conns s c))
                                 (r\<lparr>drawingState := d\<rparr>)\<rparr>) c
             (broadcastToRoom (put_room (roomManager s) (currentRoomId (conns s c))
                                 (r\<lparr>drawingState := d\<rparr>))
                (currentRoomId (conns s c)) (Draw op) (currentUserId (conns s c)) (socks s))
           = Some s'"
        by (simp add: on_message_def Let_def split: prod.splits)
      have "keeps (socks (s\<lparr>roomManager := put_room (roomManager s) (currentRoomId (conns s c))
                                 (r\<lparr>drawingState := d\<rparr>)\<rparr>))
              (broadcastToRoom (put_room (roomManager s) (currentRoomId (conns s c))
                                 (r\<lparr>drawingState := d\<rparr>))
                (currentRoomId (conns s c)) (Draw op) (currentUserId (conns s c)) (socks s))"
        by (simp add: keeps_broadcastToRoom)
      from try_catch_effect [OF t this] skel_put_room [OF Some, of "r\<lparr>drawingState := d\<rparr>"]
      show ?thesis by (simp add: room_members_def)
    qed
  qed
next
  case (CursorMove px py)
  obtain ok m' where u: "updateUserCursor (roomManager s) (currentRoomId (conns s c))
                           (currentUserId (conns s c)) (px, py) = (ok, m')"
    by (cases "updateUserCursor (roomManager s) (currentRoomId (conns s c))
                           (currentUserId (conns s c)) (px, py)")
  with assms(1) CursorMove have
    t: "try_catch (s\<lparr>roomManager := m'\<rparr>) c
          (broadcastToRoom m' (currentRoomId (conns s c))
             (CursorUpdate (currentUserId (conns s c)) px py) (currentUserId (conns s c)) (socks s))
        = Some s'"
    by (simp add: on_message_def Let_def)
  have "keeps (socks (s\<lparr>roomManager := m'\<rparr>))
          (broadcastToRoom m' (currentRoomId (conns s c))
             (CursorUpdate (currentUserId (conns s c)) px py) (currentUserId (conns s c)) (socks s))"
    by (simp add: keeps_broadcastToRoom)
  from try_catch_effect [OF t this]
       skel_updateUserCursor [of "roomManager s" "currentRoomId (conns s c)"
          "currentUserId (conns s c)" "(px, py)"] u
  show ?thesis by simp
next
  case UndoReq
  show ?thesis
  proof (cases "getRoom (roomManager s) (currentRoomId (conns s c))")
    case None
    with assms(1) UndoReq have "try_catch s c (Normal, socks s) = Some s'"
      by (simp add: on_message_def)
    from try_catch_effect [OF this keeps_refl] show ?thesis by simp
  next
    case (Some r)
    obtain res d where u: "undo (drawingState r) = (res, d)" by (cases "undo (drawingState r)")
    let ?m = "put_room (roomManager s) (currentRoomId (conns s c)) (r\<lparr>drawingState := d\<rparr>)"
    let ?s1 = "s\<lparr>roomManager := ?m\<rparr>"
    from assms(1) UndoReq Some u
    have "(case res of
              Success idx ops \<Rightarrow>
                try_catch ?s1 c
                  (and_then (broadcastToRoom ?m (currentRoomId (conns s c)) (UndoMsg idx ops) None
                               (socks ?s1))
                     (\<lambda>W'. ws_send W' c (UndoMsg idx ops)))
            | Failure \<Rightarrow> try_catch ?s1 c (Normal, socks ?s1)) = Some s'"
      by (cases res) (simp_all add: on_message_def Let_def)
    from history_request_effect [OF this]
         skel_put_room [OF Some, of "r\<lparr>drawingState := d\<rparr>"]
    show ?thesis by (simp add: room_members_def)
  qed
next
  case RedoReq
  show ?thesis
  proof (cases "getRoom (roomManager s) (currentRoomId (conns s c))")
    case None
    with assms(1) RedoReq have "try_catch s c (Normal, socks s) = Some s'"
      by (simp add: on_message_def)
    from try_catch_effect [OF this keeps_refl] show ?thesis by simp
  next
    case (Some r)
    obtain res d where u: "redo (drawingState r) = (res, d)" by (cases "redo (drawingState r)")
    let ?m = "put_room (roomManager s) (currentRoomId (conns s c)) (r\<lparr>drawingState := d\<rparr>)"
    let ?s1 = "s\<lparr>roomManager := ?m\<rparr>"
    from assms(1) RedoReq Some u
    have "(case res of
              Success idx ops \<Rightarrow>
                try_catch ?s1 c
                  (and_then (broadcastToRoom ?m (currentRoomId (conns s c)) (RedoMsg idx ops) None
                               (socks ?s1))
                     (\<lambda>W'. ws_send W' c (RedoMsg idx ops)))
            | Failure \<Rightarrow> try_catch ?s1 c (Normal, socks ?s1)) = Some s'"
      by (cases res) (simp_all add: on_message_def Let_def)
    from history_request_effect [OF this]
         skel_put_room [OF Some, of "r\<lparr>drawingState := d\<rparr>"]
    show ?thesis by (simp add: room_members_def)
  qed
next
  case ClearReq
  show ?thesis
  proof (cases "getRoom (roomManager s) (currentRoomId (conns s c))")
    case None
    with assms(1) ClearReq have "try_catch s c (Normal, socks s) = Some s'"
      by (simp add: on_message_def)
    from try_catch_effect [OF this keeps_refl] show ?thesis by simp
  next
    case (Some r)
    let ?m = "put_room (roomManager s) (currentRoomId (conns s c))
                (r\<lparr>drawingState := clear (drawingState r)\<rparr>)"
    let ?s1 = "s\<lparr>roomManager := ?m\<rparr>"
    from assms(1) ClearReq Some
    have t: "try_catch ?s1 c
               (and_then (broadcastToRoom ?m (currentRoomId (conns s c)) ClearMsg None (socks ?s1))
                  (\<lambda>W'. ws_send W' c ClearMsg)) = Some s'"
      by (simp add: on_message_def Let_def)
    have "keeps (socks ?s1)
            (and_then (broadcastToRoom ?m (currentRoomId (conns s c)) ClearMsg None (socks ?s1))
               (\<lambda>W'. ws_send W' c ClearMsg))"
      by (intro keeps_and_then keeps_broadcastToRoom keeps_ws_send)
    from try_catch_effect [OF t this]
         skel_put_room [OF Some, of "r\<lparr>drawingState := clear (drawingState r)\<rparr>"]
    show ?thesis by (simp add: room_members_def)
  qed
next
  case OtherType
  with assms(1) have "try_catch s c (Normal, socks s) = Some s'"
    by (simp add: on_message_def)
  from try_catch_effect [OF this keeps_refl] show ?thesis by simp
next
  case Unparsable
  with assms(1) have "try_catch s c (Raised, socks s) = Some s'"
    by (simp add: on_message_def)
  from try_catch_effect [OF this keeps_refl] show ?thesis by simp
qed

lemma regI:
  "(\<And>R mem n. K R = Some (mem, n) \<Longrightarrow>
      mem \<noteq> [] \<and> (\<forall>k \<in> fst ` set mem. k \<noteq> 0 \<and> k < n)) \<Longrightarrow>
   (\<And>c R u. L c \<Longrightarrow> at_entry (C c) R u \<Longrightarrow> R \<noteq> [] \<and> u \<noteq> 0 \<and> has_entry K R u c) \<Longrightarrow>
   reg K C L"
  unfolding reg_def by blast

lemma regD1:
  "reg K C L \<Longrightarrow> K R = Some (mem, n) \<Longrightarrow> mem \<noteq> [] \<and> (\<forall>k \<in> fst ` set mem. k \<noteq> 0 \<and> k < n)"
  unfolding reg_def by blast

lemma regD2:
  "reg K C L \<Longrightarrow> L c \<Longrightarrow> at_entry (C c) R u \<Longrightarrow> R \<noteq> [] \<and> u \<noteq> 0 \<and> has_entry K R u c"
  unfolding reg_def by blast

lemma has_entry_key: "has_entry K R u c \<Longrightarrow> K R = Some (mem, n) \<Longrightarrow> u \<in> fst ` set mem"
  by (auto simp: has_entry_def dest!: map_of_SomeD intro: rev_image_eqI)

lemma reg_join_id: "reg K C L \<Longrightarrow> join_id K R \<noteq> 0"
proof (cases "K R")
  case None
  then show ?thesis by (simp add: join_id_def)
next
  case (Some p)
  assume r: "reg K C L"
  obtain mem n where p: "p = (mem, n)" by (cases p)
  with r Some have ne: "mem \<noteq> []" and lt: "\<forall>k \<in> fst ` set mem. k \<noteq> 0 \<and> k < n"
    by (auto simp: reg_def)
  from ne obtain k where "k \<in> fst ` set mem" by (cases mem) auto
  with lt have "n \<noteq> 0" by auto
  with Some p show ?thesis by (simp add: join_id_def)
qed

lemma reg_fresh: "reg K C L \<Longrightarrow> has_entry K R u c \<Longrightarrow> u \<noteq> join_id K R"
proof -
  assume r: "reg K C L" and h: "has_entry K R u c"
  from h obtain mem n where k: "K R = Some (mem, n)"
    by (auto simp: has_entry_def split: option.splits)
  from has_entry_key [OF h k] r k have "u < n" by (auto simp: reg_def)
  with k show ?thesis by (simp add: join_id_def)
qed

lemma has_entry_join_new: "has_entry (join_skel K R c) R (join_id K R) c"
  by (auto simp: has_entry_def join_skel_def join_id_def AList.update_conv' split: option.splits)

lemma has_entry_join_old:
  "has_entry K R u d \<Longrightarrow> (R = R' \<longrightarrow> u \<noteq> join_id K R') \<Longrightarrow> has_entry (join_skel K R' c) R u d"
  by (auto simp: has_entry_def join_skel_def join_id_def AList.update_conv' split: option.splits)

lemma reg_join:
  assumes r: "reg K C L" and k0: "R0 \<noteq> []"
  shows "reg (join_skel K R0 c)
           (C(c := \<lparr>currentUserId = Some (join_id K R0), currentRoomId = Some R0\<rparr>)) L"
proof (rule regI)
  fix R mem n
  assume a: "join_skel K R0 c R = Some (mem, n)"
  show "mem \<noteq> [] \<and> (\<forall>k \<in> fst ` set mem. k \<noteq> 0 \<and> k < n)"
  proof (cases "R = R0")
    case False
    with a have "K R = Some (mem, n)" by (simp add: join_skel_def)
    from regD1 [OF r this] show ?thesis .
  next
    case True
    show ?thesis
    proof (cases "K R0")
      case None
      with a True show ?thesis by (auto simp: join_skel_def)
    next
      case (Some p)
      obtain mem0 n0 where p: "p = (mem0, n0)" by (cases p)
      from regD1 [OF r] Some p have lt: "\<forall>k \<in> fst ` set mem0. k \<noteq> 0 \<and> k < n0" by blast
      from reg_join_id [OF r, of R0] Some p have n0: "n0 \<noteq> 0" by (simp add: join_id_def)
      from a True Some p have mn: "mem = AList.update n0 c mem0" "n = n0 + 1"
        by (simp_all add: join_skel_def)
      have "\<forall>k \<in> fst ` set (AList.update n0 c mem0). k \<noteq> 0 \<and> k < n0 + 1"
      proof
        fix k
        assume "k \<in> fst ` set (AList.update n0 c mem0)"
        then have "k = n0 \<or> k \<in> fst ` set mem0" unfolding AList.dom_update by blast
        with lt n0 show "k \<noteq> 0 \<and> k < n0 + 1" by auto
      qed
      moreover have "AList.update n0 c mem0 \<noteq> []" by simp
      ultimately show ?thesis unfolding mn by blast
    qed
  qed
next
  fix d R u
  assume "L d"
    and "at_entry ((C(c := \<lparr>currentUserId = Some (join_id K R0), currentRoomId = Some R0\<rparr>)) d) R u"
  then have a: "L d \<and> at_entry ((C(c := \<lparr>currentUserId = Some (join_id K R0), currentRoomId = Some R0\<rparr>)) d) R u"
    by simp
  show "R \<noteq> [] \<and> u \<noteq> 0 \<and> has_entry (join_skel K R0 c) R u d"
  proof (cases "d = c")
    case True
    with a have "R = R0" and "u = join_id K R0" by (auto simp: at_entry_def)
    with True k0 reg_join_id [OF r, of R0] has_entry_join_new [of K R0 c] show ?thesis by simp
  next
    case False
    with a have "L d" and "at_entry (C d) R u" by simp_all
    from regD2 [OF r this] have b: "R \<noteq> []" "u \<noteq> 0" "has_entry K R u d" by simp_all
    from reg_fresh [OF r b(3)] have "R = R0 \<longrightarrow> u \<noteq> join_id K R0" by blast
    from has_entry_join_old [OF b(3) this] b show ?thesis by simp
  qed
qed

lemma has_entry_leave:
  "has_entry K R u d \<Longrightarrow> (R = R' \<longrightarrow> u \<noteq> u') \<Longrightarrow> has_entry (leave_skel K R' u') R u d"
proof -
  assume h: "has_entry K R u d" and ne: "R = R' \<longrightarrow> u \<noteq> u'"
  show ?thesis
  proof (cases "R = R'")
    case False
    with h show ?thesis
      by (auto simp: has_entry_def leave_skel_def split: option.splits)
  next
    case True
    from h obtain mem n where k: "K R = Some (mem, n)" and m: "map_of mem u = Some d"
      by (auto simp: has_entry_def split: option.splits)
    from m ne True have m': "map_of (AList.delete u' mem) u = Some d"
      by (simp add: AList.delete_conv')
    then have "AList.delete u' mem \<noteq> []" by auto
    with k m' True show ?thesis by (simp add: has_entry_def leave_skel_def)
  qed
qed

lemma reg_leave_rooms:
  assumes r: "reg K C L" and a: "leave_skel K R0 u0 R = Some (mem, n)"
  shows "mem \<noteq> [] \<and> (\<forall>k \<in> fst ` set mem. k \<noteq> 0 \<and> k < n)"
proof (cases "K R0")
  case None
  with a have "K R = Some (mem, n)" by (simp add: leave_skel_def)
  from regD1 [OF r this] show ?thesis .
next
  case (Some p)
  obtain mem0 n0 where p: "p = (mem0, n0)" by (cases p)
  from regD1 [OF r] Some p have lt: "\<forall>k \<in> fst ` set mem0. k \<noteq> 0 \<and> k < n0" by blast
  have sub: "fst ` set (AList.delete u0 mem0) \<subseteq> fst ` set mem0"
    by (auto simp: AList.delete_eq)
  show ?thesis
  proof (cases "R = R0")
    case False
    with a Some p have "K R = Some (mem, n)" by (auto simp: leave_skel_def split: if_splits)
    from regD1 [OF r this] show ?thesis .
  next
    case True
    with a Some p have mn: "mem = AList.delete u0 mem0" "n = n0" "AList.delete u0 mem0 \<noteq> []"
      by (auto simp: leave_skel_def split: if_splits)
    from lt sub have "\<forall>k \<in> fst ` set (AList.delete u0 mem0). k \<noteq> 0 \<and> k < n0" by blast
    with mn show ?thesis by simp
  qed
qed

lemma reg_weaken: "reg K C L \<Longrightarrow> (\<And>d. L' d \<Longrightarrow> L d) \<Longrightarrow> reg K C L'"
  unfolding reg_def by blast

lemma reg_close:
  assumes r: "reg K C L" and l: "L c"
  shows "reg (close_skel K (C c)) C (\<lambda>d. L d \<and> d \<noteq> c)"
proof (cases "\<exists>R u. at_entry (C c) R u")
  case False
  then have "close_skel K (C c) = K"
    by (auto simp: close_skel_def at_entry_def split: option.splits)
  with reg_weaken [OF r, of "\<lambda>d. L d \<and> d \<noteq> c"] show ?thesis by simp
next
  case True
  then obtain R0 u0 where at: "at_entry (C c) R0 u0" by blast
  from regD2 [OF r l at] have t: "R0 \<noteq> []" "u0 \<noteq> 0" and h: "has_entry K R0 u0 c" by simp_all
  from at t have cs: "close_skel K (C c) = leave_skel K R0 u0"
    by (simp add: close_skel_def at_entry_def)
  show ?thesis
    unfolding cs
  proof (rule regI)
    fix R mem n
    assume "leave_skel K R0 u0 R = Some (mem, n)"
    from reg_leave_rooms [OF r this] show "mem \<noteq> [] \<and> (\<forall>k \<in> fst ` set mem. k \<noteq> 0 \<and> k < n)" .
  next
    fix d R u
    assume a: "L d \<and> d \<noteq> c" and "at_entry (C d) R u"
    then have "L d" and "at_entry (C d) R u" by simp_all
    from regD2 [OF r this] have b: "R \<noteq> []" "u \<noteq> 0" "has_entry K R u d" by simp_all
    have "R = R0 \<longrightarrow> u \<noteq> u0"
    proof (intro impI notI)
      assume "R = R0" and "u = u0"
      with b(3) h have "d = c" by (auto simp: has_entry_def split: option.splits)
      with a show False by simp
    qed
    from has_entry_leave [OF b(3) this] b show "R \<noteq> [] \<and> u \<noteq> 0 \<and> has_entry (leave_skel K R0 u0) R u d"
      by simp
  qed
qed

lemma stale_join:
  assumes st: "stale K C L R u c0" and k0: "R0 \<noteq> []"
  shows "stale (join_skel K R0 c)
           (C(c := \<lparr>currentUserId = Some (join_id K R0), currentRoomId = Some R0\<rparr>)) L R u c0"
proof -
  from st have r: "reg K C L" and h: "has_entry K R u c0"
    and n: "\<forall>d. L d \<longrightarrow> \<not> at_entry (C d) R u"
    by (simp_all add: stale_def)
  from reg_fresh [OF r h] have f: "R = R0 \<longrightarrow> u \<noteq> join_id K R0" by blast
  have "\<forall>d. L d \<longrightarrow>
          \<not> at_entry ((C(c := \<lparr>currentUserId = Some (join_id K R0), currentRoomId = Some R0\<rparr>)) d) R u"
    using n f by (auto simp: at_entry_def)
  with reg_join [OF r k0, of c] has_entry_join_old [OF h f, of c]
  show ?thesis by (simp add: stale_def)
qed

lemma stale_close:
  assumes st: "stale K C L R u c0" and l: "L c"
  shows "stale (close_skel K (C c)) C (\<lambda>d. L d \<and> d \<noteq> c) R u c0"
proof -
  from st have r: "reg K C L" and h: "has_entry K R u c0"
    and n: "\<forall>d. L d \<longrightarrow> \<not> at_entry (C d) R u"
    by (simp_all add: stale_def)
  have "has_entry (close_skel K (C c)) R u c0"
  proof (cases "\<exists>R1 u1. at_entry (C c) R1 u1 \<and> R1 \<noteq> [] \<and> u1 \<noteq> 0")
    case False
    then have "close_skel K (C c) = K"
      by (auto simp: close_skel_def at_entry_def split: option.splits)
    with h show ?thesis by simp
  next
    case True
    then obtain R1 u1 where at: "at_entry (C c) R1 u1" and t: "R1 \<noteq> []" "u1 \<noteq> 0" by blast
    from at t have cs: "close_skel K (C c) = leave_skel K R1 u1"
      by (simp add: close_skel_def at_entry_def)
    from n l at have "R = R1 \<longrightarrow> u \<noteq> u1" by blast
    from has_entry_leave [OF h this] cs show ?thesis by simp
  qed
  with reg_close [OF r l] n show ?thesis by (simp add: stale_def)
qed

lemma stale_live_cong: "stale K C L R u c0 \<Longrightarrow> (\<And>d. L' d = L d) \<Longrightarrow> stale K C L' R u c0"
proof -
  assume a: "stale K C L R u c0" and b: "\<And>d. L' d = L d"
  from b have "L' = L" by (simp add: fun_eq_iff)
  with a show ?thesis by simp
qed

lemma reg_live_cong: "reg K C L \<Longrightarrow> (\<And>d. L' d = L d) \<Longrightarrow> reg K C L'"
proof -
  assume a: "reg K C L" and b: "\<And>d. L' d = L d"
  from b have "L' = L" by (simp add: fun_eq_iff)
  with a show ?thesis by simp
qed

lemma room_key_nonempty: "room_key rid \<noteq> []"
  by (simp add: room_key_def split: option.splits)

lemma skel_removeUser_leave: "skel (snd (removeUser m R u)) = leave_skel (skel m) R u"
  by (simp add: skel_removeUser leave_skel_def)

lemma skel_addUser_join: "skel (snd (snd (addUser m K c name))) = join_skel (skel m) K c"
  by (simp add: skel_addUser join_skel_def)

lemma user_id_addUser_join: "user_id (fst (addUser m K c name)) = join_id (skel m) K"
  by (simp add: user_id_addUser join_id_def)

lemma on_message_join:
  assumes "on_message s c (Join rid name) now = Some s'"
  shows "skel (roomManager s') = join_skel (skel (roomManager s)) (room_key rid) c \<and>
         conns s' = (conns s)(c := \<lparr>currentUserId = Some (join_id (skel (roomManager s)) (room_key rid)),
                                    currentRoomId = Some (room_key rid)\<rparr>) \<and>
         roomManager s' = snd (snd (addUser (roomManager s) (room_key rid) c name)) \<and>
         (\<forall>d. readyState (socks s' d) = readyState (socks s d))"
proof -
  obtain u r m' where a: "addUser (roomManager s) (room_key rid) c name = (u, r, m')"
    by (cases "addUser (roomManager s) (room_key rid) c name") auto
  let ?s1 = "s\<lparr>roomManager := m',
               conns := (conns s)(c := \<lparr>currentUserId = Some (user_id u),
                                         currentRoomId = Some (room_key rid)\<rparr>)\<rparr>"
  let ?body = "and_then
                 (ws_send (socks s) c
                    (Joined (user_id u) (user_color u) (username u)
                       (getVisibleOperations (drawingState r)) (getUserList r)))
                 (broadcastToRoom m' (Some (room_key rid))
                    (UserJoined (user_id u, username u, user_color u) (getUserList r))
                    (Some (user_id u)))"
  from assms a have t: "try_catch ?s1 c ?body = Some s'"
    by (simp add: on_message_def Let_def)
  have "keeps (socks s) ?body"
    by (intro keeps_and_then keeps_broadcastToRoom keeps_ws_send)
  then have "keeps (socks ?s1) ?body" by simp
  from try_catch_effect [OF t this]
       skel_addUser_join [of "roomManager s" "room_key rid" c name]
       user_id_addUser_join [of "roomManager s" "room_key rid" c name] a
  show ?thesis by simp
qed

lemma on_close_effect:
  assumes "on_close s c = Some s'"
  shows "skel (roomManager s') = close_skel (skel (roomManager s)) (conns s c) \<and>
         conns s' = conns s \<and>
         (\<forall>d. readyState (socks s' d) = readyState (socks s d))"
proof (cases "\<exists>R u. currentRoomId (conns s c) = Some R \<and> currentUserId (conns s c) = Some u \<and>
                     R \<noteq> [] \<and> u \<noteq> 0")
  case False
  then have "on_close s c = Some s"
    by (auto simp: on_close_def Let_def split: option.splits)
  moreover from False have "close_skel (skel (roomManager s)) (conns s c) = skel (roomManager s)"
    by (auto simp: close_skel_def split: option.splits)
  ultimately show ?thesis using assms by simp
next
  case True
  then obtain R u where cr: "currentRoomId (conns s c) = Some R"
    and cu: "currentUserId (conns s c) = Some u" and t: "R \<noteq> []" "u \<noteq> 0"
    by blast
  obtain ro m' where rm: "removeUser (roomManager s) R u = (ro, m')"
    by (cases "removeUser (roomManager s) R u")
  from skel_removeUser_leave [of "roomManager s" R u] rm
  have sk: "skel m' = leave_skel (skel (roomManager s)) R u" by simp
  from cr cu t have cs: "close_skel (skel (roomManager s)) (conns s c)
                           = leave_skel (skel (roomManager s)) R u"
    by (simp add: close_skel_def)
  show ?thesis
  proof (cases ro)
    case None
    with assms cr cu t rm have "s' = s\<lparr>roomManager := m'\<rparr>"
      by (simp add: on_close_def Let_def)
    with sk cs show ?thesis by simp
  next
    case (Some r)
    obtain k W' where b: "broadcastToRoom m' (Some R) (UserLeft u (getUserList r)) None (socks s)
                            = (k, W')"
      by (cases "broadcastToRoom m' (Some R) (UserLeft u (getUserList r)) None (socks s)")
    from keeps_broadcastToRoom [of "socks s" m' "Some R" "UserLeft u (getUserList r)" None] b
    have fl: "\<forall>d. readyState (W' d) = readyState (socks s d)" by (simp add: keeps_def)
    from assms cr cu t rm Some b have "s' = s\<lparr>roomManager := m', socks := W'\<rparr>"
      by (cases k) (simp_all add: on_close_def Let_def)
    with sk cs fl show ?thesis by simp
  qed
qed

lemma step_cases:
  assumes "step s ev = Some s'"
  shows "(skel (roomManager s') = skel (roomManager s) \<and> conns s' = conns s \<and>
          (\<forall>d. live s' d = live s d)) \<or>
         (\<exists>c rid. live s c \<and>
            skel (roomManager s') = join_skel (skel (roomManager s)) (room_key rid) c \<and>
            conns s' = (conns s)(c := \<lparr>currentUserId =
                                          Some (join_id (skel (roomManager s)) (room_key rid)),
                                        currentRoomId = Some (room_key rid)\<rparr>) \<and>
            (\<forall>d. live s' d = live s d)) \<or>
         (\<exists>c. live s c \<and>
            skel (roomManager s') = close_skel (skel (roomManager s)) (conns s c) \<and>
            conns s' = conns s \<and> (\<forall>d. live s' d = (live s d \<and> d \<noteq> c)))"
proof (cases ev)
  case (Message c msg now)
  show ?thesis
  proof (cases "readyState (socks s c) = 3")
    case True
    with assms Message have "s' = s" by (simp add: step_def)
    then show ?thesis by simp
  next
    case False
    with assms Message have om: "on_message s c msg now = Some s'" by (simp add: step_def)
    show ?thesis
    proof (cases "\<exists>rid name. msg = Join rid name")
      case True
      then obtain rid name where "msg = Join rid name" by blast
      with om on_message_join [of s c rid name now s'] \<open>readyState (socks s c) \<noteq> 3\<close>
      have "live s c \<and>
            skel (roomManager s') = join_skel (skel (roomManager s)) (room_key rid) c \<and>
            conns s' = (conns s)(c := \<lparr>currentUserId =
                                          Some (join_id (skel (roomManager s)) (room_key rid)),
                                        currentRoomId = Some (room_key rid)\<rparr>) \<and>
            (\<forall>d. live s' d = live s d)"
        by (simp add: live_def skel_addUser_join)
      then show ?thesis by blast
    next
      case False
      then have "\<forall>rid name. msg \<noteq> Join rid name" by blast
      from on_message_other [OF om this] show ?thesis by (simp add: live_def)
    qed
  qed
next
  case (Close c)
  show ?thesis
  proof (cases "readyState (socks s c) = 3")
    case True
    with assms Close have "s' = s" by (simp add: step_def)
    then show ?thesis by simp
  next
    case False
    let ?s0 = "s\<lparr>socks := (socks s)(c := (socks s c)\<lparr>readyState := 3\<rparr>)\<rparr>"
    from False assms Close have "on_close ?s0 c = Some s'" by (simp add: step_def)
    from on_close_effect [OF this] False
    have "live s c \<and>
          skel (roomManager s') = close_skel (skel (roomManager s)) (conns s c) \<and>
          conns s' = conns s \<and> (\<forall>d. live s' d = (live s d \<and> d \<noteq> c))"
      by (auto simp: live_def)
    then show ?thesis by blast
  qed
next
  case (SockChange c rs thr)
  with assms have "roomManager s' = roomManager s \<and> conns s' = conns s \<and>
                   (\<forall>d. live s' d = live s d)"
    by (auto simp: step_def live_def split: if_splits)
  then show ?thesis by simp
qed

lemma step_registry_ok:
  assumes "registry_ok s" and "step s ev = Some s'"
  shows "registry_ok s'"
proof -
  from assms(1) have r: "reg (skel (roomManager s)) (conns s) (live s)"
    by (simp add: registry_ok_def)
  from step_cases [OF assms(2)] show ?thesis
  proof (elim disjE exE conjE)
    assume "skel (roomManager s') = skel (roomManager s)" "conns s' = conns s"
      "\<forall>d. live s' d = live s d"
    with reg_live_cong [OF r, of "live s'"] show ?thesis by (simp add: registry_ok_def)
  next
    fix c rid
    assume a: "skel (roomManager s') = join_skel (skel (roomManager s)) (room_key rid) c"
      "conns s' = (conns s)(c := \<lparr>currentUserId =
                                      Some (join_id (skel (roomManager s)) (room_key rid)),
                                    currentRoomId = Some (room_key rid)\<rparr>)"
      "\<forall>d. live s' d = live s d"
    from reg_live_cong [OF reg_join [OF r room_key_nonempty, of rid c], of "live s'"] a(3)
    have "reg (join_skel (skel (roomManager s)) (room_key rid) c)
            ((conns s)(c := \<lparr>currentUserId =
                                      Some (join_id (skel (roomManager s)) (room_key rid)),
                                    currentRoomId = Some (room_key rid)\<rparr>)) (live s')"
      by simp
    with a show ?thesis by (simp add: registry_ok_def)
  next
    fix c
    assume a: "live s c" "skel (roomManager s') = close_skel (skel (roomManager s)) (conns s c)"
      "conns s' = conns s" "\<forall>d. live s' d = (live s d \<and> d \<noteq> c)"
    from reg_live_cong [OF reg_close [OF r a(1)], of "live s'"] a(4)
    have "reg (close_skel (skel (roomManager s)) (conns s c)) (conns s) (live s')"
      by simp
    with a show ?thesis by (simp add: registry_ok_def)
  qed
qed

lemma step_stale_entry:
  assumes "stale_entry s R u c0" and "step s ev = Some s'"
  shows "stale_entry s' R u c0"
proof -
  from assms(1) have r: "stale (skel (roomManager s)) (conns s) (live s) R u c0"
    by (simp add: stale_entry_def)
  from step_cases [OF assms(2)] show ?thesis
  proof (elim disjE exE conjE)
    assume "skel (roomManager s') = skel (roomManager s)" "conns s' = conns s"
      "\<forall>d. live s' d = live s d"
    with stale_live_cong [OF r, of "live s'"] show ?thesis by (simp add: stale_entry_def)
  next
    fix c rid
    assume a: "skel (roomManager s') = join_skel (skel (roomManager s)) (room_key rid) c"
      "conns s' = (conns s)(c := \<lparr>currentUserId =
                                      Some (join_id (skel (roomManager s)) (room_key rid)),
                                    currentRoomId = Some (room_key rid)\<rparr>)"
      "\<forall>d. live s' d = live s d"
    from stale_live_cong [OF stale_join [OF r room_key_nonempty, of rid c], of "live s'"] a(3)
    have "stale (join_skel (skel (roomManager s)) (room_key rid) c)
            ((conns s)(c := \<lparr>currentUserId =
                                      Some (join_id (skel (roomManager s)) (room_key rid)),
                                    currentRoomId = Some (room_key rid)\<rparr>)) (live s') R u c0"
      by simp
    with a show ?thesis by (simp add: stale_entry_def)
  next
    fix c
    assume a: "live s c" "skel (roomManager s') = close_skel (skel (roomManager s)) (conns s c)"
      "conns s' = conns s" "\<forall>d. live s' d = (live s d \<and> d \<noteq> c)"
    from stale_live_cong [OF stale_close [OF r a(1)], of "live s'"] a(4)
    have "stale (close_skel (skel (roomManager s)) (conns s c)) (conns s) (live s') R u c0"
      by simp
    with a show ?thesis by (simp add: stale_entry_def)
  qed
qed

lemma run_invariant:
  assumes "\<And>s ev s'. Q s \<Longrightarrow> step s ev = Some s' \<Longrightarrow> Q s'"
  shows "Q s \<Longrightarrow> run s evs = Some s' \<Longrightarrow> Q s'"
proof (induction evs arbitrary: s)
  case Nil
  then show ?case by simp
next
  case (Cons ev evs)
  from Cons.prems(2) obtain s1 where s1: "step s ev = Some s1" and r: "run s1 evs = Some s'"
    by (auto split: option.splits)
  from assms [OF Cons.prems(1) s1] have "Q s1" .
  from Cons.IH [OF this r] show ?case .
qed

lemma registry_ok_new: "registry_ok (new_server W)"
  by (simp add: registry_ok_def reg_def new_server_def new_RoomManager_def skel_def at_entry_def)

lemma run_registry_ok:
  assumes "run (new_server W) evs = Some s"
  shows "registry_ok s"
proof -
  have "\<And>s ev s'. registry_ok s \<Longrightarrow> step s ev = Some s' \<Longrightarrow> registry_ok s'"
    by (rule step_registry_ok)
  from run_invariant [of registry_ok, OF this registry_ok_new assms] show ?thesis .
qed

lemma run_stale_entry:
  assumes "stale_entry s R u c0" and "run s evs = Some s'"
  shows "stale_entry s' R u c0"
proof -
  have "\<And>s ev s'. stale_entry s R u c0 \<Longrightarrow> step s ev = Some s' \<Longrightarrow> stale_entry s' R u c0"
    by (rule step_stale_entry)
  from run_invariant [of "\<lambda>s. stale_entry s R u c0", OF this assms] show ?thesis .
qed

lemma step_stays_closed:
  "step s ev = Some s' \<Longrightarrow> readyState (socks s c) = 3 \<Longrightarrow> readyState (socks s' c) = 3"
  using step_cases [of s ev s'] by (auto simp: live_def)

lemma step_Close_closed: "step s (Close c) = Some s' \<Longrightarrow> readyState (socks s' c) = 3"
  using step_cases [of s "Close c" s'] on_close_effect
  by (auto simp: step_def split: if_splits)

lemma run_closed:
  "run s evs = Some s' \<Longrightarrow> Close c \<in> set evs \<or> readyState (socks s c) = 3 \<Longrightarrow>
   readyState (socks s' c) = 3"
proof (induction evs arbitrary: s)
  case Nil
  then show ?case by simp
next
  case (Cons ev evs)
  from Cons.prems(1) obtain s1 where s1: "step s ev = Some s1" and r: "run s1 evs = Some s'"
    by (auto split: option.splits)
  have "Close c \<in> set evs \<or> readyState (socks s1 c) = 3"
  proof (cases "ev = Close c")
    case True
    with s1 step_Close_closed show ?thesis by blast
  next
    case False
    with Cons.prems(2) step_stays_closed [OF s1] show ?thesis by auto
  qed
  from Cons.IH [OF r this] show ?case .
qed

lemma holds_entry_skel: "holds_entry s R u c \<longleftrightarrow> has_entry (skel (roomManager s)) R u c"
  by (auto simp: holds_entry_def find_user_def has_entry_def skel_def room_members_def
        map_of_map split: option.splits)

lemma find_user_None:
  "find_user s R u = None \<longleftrightarrow> (\<forall>c. \<not> has_entry (skel (roomManager s)) R u c)"
proof (cases "rooms (roomManager s) R")
  case None
  then show ?thesis by (simp add: find_user_def has_entry_def skel_def)
next
  case (Some r)
  show ?thesis
  proof (cases "map_of (users r) u")
    case None
    with Some show ?thesis
      by (simp add: find_user_def has_entry_def skel_def room_members_def map_of_map)
  next
    case (Some usr)
    with \<open>rooms (roomManager s) R = Some r\<close>
    have "has_entry (skel (roomManager s)) R u (user_ws usr)"
      by (simp add: has_entry_def skel_def room_members_def map_of_map)
    with Some \<open>rooms (roomManager s) R = Some r\<close> show ?thesis
      by (auto simp: find_user_def)
  qed
qed

lemma members_keys: "fst ` set (room_members r) = fst ` set (users r)"
proof -
  have "map fst (room_members r) = map fst (users r)"
    by (simp add: room_members_def case_prod_unfold comp_def)
  then have "set (map fst (room_members r)) = set (map fst (users r))" by simp
  then show ?thesis by simp
qed

lemma entry_ids_skel:
  "set (entry_ids s R)
     = (case skel (roomManager s) R of None \<Rightarrow> {} | Some (mem, n) \<Rightarrow> fst ` set mem)"
  by (cases "rooms (roomManager s) R") (simp_all add: entry_ids_def skel_def members_keys)

lemma has_entry_leave_gone: "\<not> has_entry (leave_skel K R u) R u c"
  by (auto simp: has_entry_def leave_skel_def AList.delete_conv' split: option.splits)

lemma join_id_fresh:
  assumes "reg K C L"
  shows "join_id K R \<notin> (case K R of None \<Rightarrow> {} | Some (mem, n) \<Rightarrow> fst ` set mem)"
proof (cases "K R")
  case None
  then show ?thesis by simp
next
  case (Some p)
  obtain mem n where p: "p = (mem, n)" by (cases p)
  from regD1 [OF assms] Some p have "\<forall>k \<in> fst ` set mem. k < n" by blast
  then have "n \<notin> fst ` set mem" by blast
  with Some p show ?thesis by (simp add: join_id_def)
qed

lemma addUser_facts:
  assumes "addUser m K c name = (usr, r2, m2)"
  shows "user_ws usr = c \<and> user_id usr = join_id (skel m) K \<and>
         user_color usr = userColors ! (colorIndex m mod length userColors) \<and>
         colorIndex m2 = colorIndex m + 1 \<and> rooms m2 K = Some r2 \<and>
         map_of (users r2) (user_id usr) = Some usr"
proof (cases "rooms m K")
  case None
  with assms show ?thesis
    by (simp add: addUser_def getOrCreateRoom_def Let_def join_id_def skel_def) auto
next
  case (Some r)
  from assms Some show ?thesis
    by (simp add: addUser_def getOrCreateRoom_def Let_def join_id_def skel_def)
       (auto simp: AList.update_conv')
qed

lemma join_returns:
  assumes "\<not> sendThrows (socks s c)"
  shows "on_message s c (Join rid name) now \<noteq> None"
proof -
  obtain u r m' where a: "addUser (roomManager s) (room_key rid) c name = (u, r, m')"
    by (cases "addUser (roomManager s) (room_key rid) c name") auto
  let ?s1 = "s\<lparr>roomManager := m',
               conns := (conns s)(c := \<lparr>currentUserId = Some (user_id u),
                                         currentRoomId = Some (room_key rid)\<rparr>)\<rparr>"
  let ?body = "and_then
                 (ws_send (socks s) c
                    (Joined (user_id u) (user_color u) (username u)
                       (getVisibleOperations (drawingState r)) (getUserList r)))
                 (broadcastToRoom m' (Some (room_key rid))
                    (UserJoined (user_id u, username u, user_color u) (getUserList r))
                    (Some (user_id u)))"
  have om: "on_message s c (Join rid name) now = try_catch ?s1 c ?body"
    using a by (simp add: on_message_def Let_def)
  have "keeps (socks s) ?body"
    by (intro keeps_and_then keeps_broadcastToRoom keeps_ws_send)
  then have k: "keeps (socks ?s1) ?body" by simp
  from assms have "\<not> sendThrows (socks ?s1 c)" by simp
  from try_catch_returns [OF k this] om show ?thesis by simp
qed

text \<open>
  C10. In any state the server can reach, a connection that is not closed and has joined
  holds a participant entry. A join message on it is processed all the same (it returns
  whenever \<^verbatim>\<open>send\<close> on that connection does not raise): the connection becomes a new
  participant with an id the target room did not hold, the next palette color, and the
  color counter advances; the entry of the earlier membership is kept. The close handler
  then removes the entry of the latest membership only, and after any further events
  whatsoever the earlier room still holds the earlier entry, whose connection is closed
  once the connection has closed.
\<close>

theorem rejoin_leaves_stale_participant:
  assumes reach: "run (new_server W) evs = Some s"
      and lv: "readyState (socks s c) \<noteq> 3"
      and cr: "currentRoomId (conns s c) = Some R"
      and cu: "currentUserId (conns s c) = Some u"
  shows "holds_entry s R u c \<and>
         (\<not> sendThrows (socks s c) \<longrightarrow> on_message s c (Join rid name) now \<noteq> None) \<and>
         (\<forall>s1. on_message s c (Join rid name) now = Some s1 \<longrightarrow>
            (\<exists>n usr.
               conns s1 c = \<lparr>currentUserId = Some n, currentRoomId = Some (room_key rid)\<rparr> \<and>
               n \<notin> set (entry_ids s (room_key rid)) \<and> (room_key rid, n) \<noteq> (R, u) \<and>
               find_user s1 (room_key rid) n = Some usr \<and>
               user_id usr = n \<and> user_ws usr = c \<and>
               user_color usr = userColors ! (colorIndex (roomManager s) mod length userColors) \<and>
               colorIndex (roomManager s1) = colorIndex (roomManager s) + 1 \<and>
               (\<forall>s2. step s1 (Close c) = Some s2 \<longrightarrow> find_user s2 (room_key rid) n = None)) \<and>
            holds_entry s1 R u c \<and>
            (\<forall>evs' s'. run s1 evs' = Some s' \<longrightarrow>
               holds_entry s' R u c \<and>
               (Close c \<in> set evs' \<longrightarrow> readyState (socks s' c) = 3)))"
proof (intro conjI allI impI)
  let ?K = "skel (roomManager s)"
  let ?k = "room_key rid"
  let ?n = "join_id ?K ?k"
  from run_registry_ok [OF reach] have r: "reg ?K (conns s) (live s)"
    by (simp add: registry_ok_def)
  from lv have l: "live s c" by (simp add: live_def)
  from cr cu have at: "at_entry (conns s c) R u" by (simp add: at_entry_def)
  from regD2 [OF r l at] have h: "has_entry ?K R u c" by simp
  then show "holds_entry s R u c" by (simp add: holds_entry_skel)
  show "\<not> sendThrows (socks s c) \<Longrightarrow> on_message s c (Join rid name) now \<noteq> None"
    by (rule join_returns)
  fix s1
  assume om: "on_message s c (Join rid name) now = Some s1"
  from on_message_join [OF om]
  have sk1: "skel (roomManager s1) = join_skel ?K ?k c"
    and cn1: "conns s1 = (conns s)(c := \<lparr>currentUserId = Some ?n, currentRoomId = Some ?k\<rparr>)"
    and m1: "roomManager s1 = snd (snd (addUser (roomManager s) ?k c name))"
    and fl: "\<forall>d. readyState (socks s1 d) = readyState (socks s d)"
    by blast+
  from fl have lv1: "\<And>d. live s1 d = live s d" by (simp add: live_def)
  from reg_fresh [OF r h] have fresh: "R = ?k \<longrightarrow> u \<noteq> ?n" by blast
  \<comment> \<open>the entry of the earlier membership is now stale\<close>
  have none_at: "\<forall>d. live s d \<longrightarrow> \<not> at_entry (conns s1 d) R u"
  proof (intro allI impI notI)
    fix d
    assume ld: "live s d" and a: "at_entry (conns s1 d) R u"
    show False
    proof (cases "d = c")
      case True
      with a cn1 fresh show False by (auto simp: at_entry_def)
    next
      case False
      with a cn1 have "at_entry (conns s d) R u" by simp
      from regD2 [OF r ld this] have "has_entry ?K R u d" by simp
      with h have "d = c" by (auto simp: has_entry_def split: option.splits)
      with False show False by simp
    qed
  qed
  have "stale (join_skel ?K ?k c)
          ((conns s)(c := \<lparr>currentUserId = Some ?n, currentRoomId = Some ?k\<rparr>)) (live s) R u c"
    unfolding stale_def
    using reg_join [OF r room_key_nonempty, of rid c] has_entry_join_old [OF h fresh, of c]
          none_at cn1
    by simp
  from stale_live_cong [OF this, of "live s1"] lv1
  have "stale (join_skel ?K ?k c)
          ((conns s)(c := \<lparr>currentUserId = Some ?n, currentRoomId = Some ?k\<rparr>)) (live s1) R u c"
    by simp
  with sk1 cn1 have st1: "stale_entry s1 R u c"
    by (simp add: stale_entry_def)
  then show "holds_entry s1 R u c"
    by (simp add: stale_entry_def stale_def holds_entry_skel)
  \<comment> \<open>the new participant\<close>
  obtain usr r2 m2 where au: "addUser (roomManager s) ?k c name = (usr, r2, m2)"
    by (cases "addUser (roomManager s) ?k c name") auto
  from addUser_facts [OF au] m1 au
  have uf: "user_ws usr = c" "user_id usr = ?n"
    "user_color usr = userColors ! (colorIndex (roomManager s) mod length userColors)"
    "colorIndex (roomManager s1) = colorIndex (roomManager s) + 1"
    "find_user s1 ?k ?n = Some usr"
    by (auto simp: find_user_def)
  from join_id_fresh [OF r, of ?k] have nf: "?n \<notin> set (entry_ids s ?k)"
    by (simp add: entry_ids_skel)
  from fresh have ne: "(?k, ?n) \<noteq> (R, u)" by auto
  have gone: "\<forall>s2. step s1 (Close c) = Some s2 \<longrightarrow> find_user s2 ?k ?n = None"
  proof (intro allI impI)
    fix s2
    assume st: "step s1 (Close c) = Some s2"
    let ?s0 = "s1\<lparr>socks := (socks s1)(c := (socks s1 c)\<lparr>readyState := 3\<rparr>)\<rparr>"
    from lv fl have "readyState (socks s1 c) \<noteq> 3" by simp
    with st have "on_close ?s0 c = Some s2" by (simp add: step_def)
    from on_close_effect [OF this] cn1 room_key_nonempty [of rid] reg_join_id [OF r, of ?k] sk1
    have "skel (roomManager s2) = leave_skel (join_skel ?K ?k c) ?k ?n"
      by (simp add: close_skel_def)
    then show "find_user s2 ?k ?n = None"
      by (simp add: find_user_None has_entry_leave_gone)
  qed
  from cn1 nf ne uf gone
  show "\<exists>n usr.
          conns s1 c = \<lparr>currentUserId = Some n, currentRoomId = Some ?k\<rparr> \<and>
          n \<notin> set (entry_ids s ?k) \<and> (?k, n) \<noteq> (R, u) \<and>
          find_user s1 ?k n = Some usr \<and>
          user_id usr = n \<and> user_ws usr = c \<and>
          user_color usr = userColors ! (colorIndex (roomManager s) mod length userColors) \<and>
          colorIndex (roomManager s1) = colorIndex (roomManager s) + 1 \<and>
          (\<forall>s2. step s1 (Close c) = Some s2 \<longrightarrow> find_user s2 ?k n = None)"
    by (intro exI [of _ ?n] exI [of _ usr]) simp
  \<comment> \<open>whatever happens afterwards\<close>
  fix evs' s'
  assume rn: "run s1 evs' = Some s'"
  from run_stale_entry [OF st1 rn] show "holds_entry s' R u c"
    by (simp add: stale_entry_def stale_def holds_entry_skel)
  assume "Close c \<in> set evs'"
  with run_closed [OF rn, of c] show "readyState (socks s' c) = 3" by simp
qed

theorem rejoin_leaves_stale_participant_witness:
  "\<exists>s s1 s2.
     run (new_server open_world) [Message 0 (Join (Some ''r1'') None) 1] = Some s \<and>
     on_message s 0 (Join (Some ''r2'') None) 2 = Some s1 \<and>
     step s1 (Close 0) = Some s2 \<and>
     holds_entry s ''r1'' 1 0 \<and> holds_entry s1 ''r1'' 1 0 \<and> holds_entry s2 ''r1'' 1 0 \<and>
     readyState (socks s2 0) = 3 \<and> find_user s2 ''r2'' 1 = None"
proof -
  have "\<exists>s. run (new_server open_world) [Message 0 (Join (Some ''r1'') None) 1] = Some s \<and>
          readyState (socks s 0) \<noteq> 3 \<and>
          currentRoomId (conns s 0) = Some ''r1'' \<and> currentUserId (conns s 0) = Some 1 \<and>
          (\<exists>s1. on_message s 0 (Join (Some ''r2'') None) 2 = Some s1 \<and>
                currentUserId (conns s1 0) = Some 1 \<and>
                (\<exists>s2. step s1 (Close 0) = Some s2))"
    by (simp add: handler_defs)
  then obtain s s1 s2 where
    rn: "run (new_server open_world) [Message 0 (Join (Some ''r1'') None) 1] = Some s"
    and lv: "readyState (socks s 0) \<noteq> 3"
    and cr: "currentRoomId (conns s 0) = Some ''r1''" and cu: "currentUserId (conns s 0) = Some 1"
    and om: "on_message s 0 (Join (Some ''r2'') None) 2 = Some s1"
    and cu1: "currentUserId (conns s1 0) = Some 1"
    and st: "step s1 (Close 0) = Some s2"
    by blast
  have k: "room_key (Some ''r2'') = ''r2''" by (simp add: room_key_def)
  from st have rn2: "run s1 [Close 0] = Some s2" by simp
  from rejoin_leaves_stale_participant [OF rn lv cr cu, of "Some ''r2''" None 2] om
  have a: "holds_entry s ''r1'' 1 0" and b: "holds_entry s1 ''r1'' 1 0"
    and c: "\<forall>evs' s'. run s1 evs' = Some s' \<longrightarrow>
               holds_entry s' ''r1'' 1 0 \<and>
               (Close 0 \<in> set evs' \<longrightarrow> readyState (socks s' 0) = 3)"
    and d: "\<exists>n. conns s1 0 = \<lparr>currentUserId = Some n, currentRoomId = Some ''r2''\<rparr> \<and>
               (\<forall>s2. step s1 (Close 0) = Some s2 \<longrightarrow> find_user s2 ''r2'' n = None)"
    unfolding k by blast+
  from c have "run s1 [Close 0] = Some s2 \<longrightarrow>
               holds_entry s2 ''r1'' 1 0 \<and>
               (Close 0 \<in> set [Close 0] \<longrightarrow> readyState (socks s2 0) = 3)"
    by blast
  with rn2 have e: "holds_entry s2 ''r1'' 1 0" "readyState (socks s2 0) = 3" by simp_all
  from d cu1 st have f: "find_user s2 ''r2'' 1 = None" by auto
  from rn om st a b e f show ?thesis by blast
qed

section \<open>What a gesture leaves in the log\<close>

text \<open>
  The draw-start and draw-move cases build an operation object and broadcast it; they
  store nothing.
\<close>

lemma draw_start_move_not_stored:
  "ty \<noteq> DrawEnd \<Longrightarrow> on_message s c (Drawing ty tool col lw px py) now = Some s' \<Longrightarrow>
   roomManager s' = roomManager s"
  by (auto simp: on_message_def try_catch_def Let_def
           split: option.splits prod.splits completion.splits)

text \<open>
  The draw-end case appends one record to the visible part of the log. The record holds
  the coordinates of the draw-end message itself and no other point.
\<close>

lemma draw_end_stores_one_point:
  assumes "getRoom (roomManager s) (currentRoomId (conns s c)) = Some r"
      and "on_message s c (Drawing DrawEnd tool col lw px py) now = Some s'"
  shows "\<exists>r'. getRoom (roomManager s') (currentRoomId (conns s c)) = Some r' \<and>
           operations (drawingState r')
             = getVisibleOperations (drawingState r) @
               [\<lparr>op_type = DrawEnd, op_userId = currentUserId (conns s c), op_tool = tool,
                 op_color = col, op_lineWidth = lw, op_x = px, op_y = py, op_timestamp = now,
                 operationId = Some (currentIndex (drawingState r) + 1)\<rparr>]"
proof -
  let ?op = "\<lparr>op_type = DrawEnd, op_userId = currentUserId (conns s c), op_tool = tool,
              op_color = col, op_lineWidth = lw, op_x = px, op_y = py, op_timestamp = now,
              operationId = None\<rparr>"
  let ?op' = "?op\<lparr>operationId := Some (currentIndex (drawingState r) + 1)\<rparr>"
  let ?d = "snd (addOperation (drawingState r) ?op)"
  let ?d' = "?d\<lparr>operations := (operations ?d)[length (operations ?d) - 1 := ?op']\<rparr>"
  let ?r' = "r\<lparr>drawingState := ?d'\<rparr>"
  let ?m = "put_room (roomManager s) (currentRoomId (conns s c)) ?r'"
  have idx: "fst (addOperation (drawingState r) ?op) = currentIndex (drawingState r) + 1"
    by (simp add: addOperation_def Let_def)
  from assms idx have "try_catch (s\<lparr>roomManager := ?m\<rparr>) c
          (broadcastToRoom ?m (currentRoomId (conns s c)) (Draw ?op')
             (currentUserId (conns s c)) (socks s)) = Some s'"
    by (simp add: on_message_def Let_def split_beta)
  from try_catch_effect [OF this] have "roomManager s' = ?m"
    by (simp add: keeps_broadcastToRoom)
  with getRoom_put_room [OF assms(1), of ?r']
  have g: "getRoom (roomManager s') (currentRoomId (conns s c)) = Some ?r'" by simp
  have "operations ?d = getVisibleOperations (drawingState r) @ [?op]"
    by (rule addOperation_visible)
  then have "operations (drawingState ?r') = getVisibleOperations (drawingState r) @ [?op']"
    by simp
  with g show ?thesis by simp
qed

text \<open>
  C2 (what the code does). After draw-start, one draw-move and draw-end on one connection,
  the log of the room holds one record, and that record carries the single point of the
  draw-end message, \<open>(10,10)\<close>: the points \<open>(0,0)\<close> and \<open>(5,5)\<close> are not in it.
  Replaying the visible list on the client strokes no path, since
  \<^verbatim>\<open>redrawFromOperations\<close> finds no draw-start entry for the record's key.
\<close>

theorem gesture_stores_final_point_only:
  "map_option
     (\<lambda>s. map_option
             (\<lambda>r. (operations (drawingState r), getVisibleOperations (drawingState r),
                    redrawFromOperations (getVisibleOperations (drawingState r))))
             (rooms (roomManager s) ''r1''))
     (run (new_server open_world) gesture)
   = Some (Some ([demo_op], [demo_op], []))"
  by (simp add: gesture_def handler_defs demo_op_def redrawFromOperations_def)

text \<open>
  C3 (what the code does). Connection \<open>1\<close> joins after the stroke and is
  handed a welcome whose operations list is the one draw-end record at \<open>(10,10)\<close>. On the
  undo both connections are handed cursor \<open>- 1\<close> and the empty list, on the redo cursor
  \<open>0\<close> and that record again; the requester is handed each of them twice.
\<close>

theorem scenario_messages:
  "map_option (\<lambda>s. (sent (socks s 1), sent (socks s 0)))
     (run (new_server open_world)
        (gesture @ [Message 1 (Join (Some ''r1'') None) 104,
                    Message 0 UndoReq 105,
                    Message 0 RedoReq 106]))
   = Some ([Joined 2 ''#4ECDC4'' ''User 2'' [demo_op]
              [(1, ''User 1'', ''#FF6B6B''), (2, ''User 2'', ''#4ECDC4'')],
            UndoMsg (- 1) [],
            RedoMsg 0 [demo_op]],
           [Joined 1 ''#FF6B6B'' ''User 1'' [] [(1, ''User 1'', ''#FF6B6B'')],
            UserJoined (2, ''User 2'', ''#4ECDC4'')
              [(1, ''User 1'', ''#FF6B6B''), (2, ''User 2'', ''#4ECDC4'')],
            UndoMsg (- 1) [], UndoMsg (- 1) [],
            RedoMsg 0 [demo_op], RedoMsg 0 [demo_op]])"
  by (simp add: gesture_def handler_defs demo_op_def)

end
